theory Spec2Isabelle
  imports Main "HOL-Library.Word" "HOL-Library.Multiset" "HOL-Library.Product_Lexorder"
begin

section \<open>Activities\<close>

text \<open>
  The scalar types of the simulator. \<open>sst_types.h\<close> is not among the sources; the widths
  are the ones the specification's data model gives (\<open>delivery_time: uint64\<close>,
  \<open>priority: uint8\<close>, \<open>sequence: uint64\<close>, \<open>link_id: uint64\<close>). Arithmetic on
  \<open>SimTime_t\<close> is therefore arithmetic modulo \<open>2 ^ 64\<close>.
\<close>

type_synonym SimTime_t = "64 word"
type_synonym LinkId_t = "64 word"

text \<open>
  \<open>Activity\<close> is the base class of everything a queue holds; \<open>Event\<close> (and
  \<open>LinkInitData\<close>) extend it with the id of the link they travel on. A queue holds
  \<open>Activity*\<close>, never a null pointer: an element of a queue is a value of (an extension
  of) this record.
\<close>

record Activity =
  delivery_time :: SimTime_t
  priority :: "8 word"
  sequence :: "64 word"

record Event = Activity +
  link_id :: LinkId_t
  payload :: nat

section \<open>The ordered containers\<close>

text \<open>
  \<open>std::multiset<Activity*, Compare>\<close> keeps its elements in non-descending order of
  \<open>Compare\<close>; \<open>insert\<close> puts the new element at the upper bound of the range of
  equivalent elements, \<open>begin()\<close> is the first element and \<open>erase(begin())\<close> drops it.
  The container is the list of its elements in iteration order.
\<close>

fun multiset_insert :: "('a \<Rightarrow> 'a \<Rightarrow> bool) \<Rightarrow> 'a \<Rightarrow> 'a list \<Rightarrow> 'a list" where
  "multiset_insert lt a [] = [a]"
| "multiset_insert lt a (x # xs) =
     (if lt a x then a # x # xs else x # multiset_insert lt a xs)"

text \<open>
  Modelled from the spec: \<open>Activity::less_time\<close>, the comparator of the
  PollingLinkQueue (\<open>activity.h\<close> is not among the sources). The queue is an
  "ordered multiset of Activities by delivery-time only".
\<close>

definition less_time :: "'a Activity_scheme \<Rightarrow> 'a Activity_scheme \<Rightarrow> bool" where
  "less_time lhs rhs \<longleftrightarrow> delivery_time lhs < delivery_time rhs"

subsection \<open>PollingLinkQueue (pollingLinkQueue.cc)\<close>

text \<open>The only member is \<open>data\<close>, a \<open>std::multiset<Activity*, Activity::less_time>\<close>.\<close>

type_synonym 'a PollingLinkQueue = "'a Activity_scheme list"

definition PollingLinkQueue_new :: "'a PollingLinkQueue" where
  "PollingLinkQueue_new = []"

definition PollingLinkQueue_empty :: "'a PollingLinkQueue \<Rightarrow> bool" where
  "PollingLinkQueue_empty data \<longleftrightarrow> data = []"

text \<open>
  \<open>int size()\<close> returns \<open>data.size()\<close>, a \<open>size_t\<close>, as an \<open>int\<close>: the low 32 bits of
  the number of elements, read as a signed value.
\<close>

definition PollingLinkQueue_size :: "'a PollingLinkQueue \<Rightarrow> int" where
  "PollingLinkQueue_size data = sint (word_of_nat (length data) :: 32 word)"

definition PollingLinkQueue_insert ::
  "'a Activity_scheme \<Rightarrow> 'a PollingLinkQueue \<Rightarrow> 'a PollingLinkQueue" where
  "PollingLinkQueue_insert activity data = multiset_insert less_time activity data"

text \<open>
  \<open>pop\<close> and \<open>front\<close> return an \<open>Activity*\<close> that is \<open>NULL\<close> on an empty queue:
  \<open>None\<close> is the null pointer. \<open>pop\<close> also returns the queue it leaves behind.
\<close>

definition PollingLinkQueue_pop ::
  "'a PollingLinkQueue \<Rightarrow> 'a Activity_scheme option \<times> 'a PollingLinkQueue" where
  "PollingLinkQueue_pop data =
     (if length data = 0 then (None, data)
      else case data of it # rest \<Rightarrow> (Some it, rest))"

definition PollingLinkQueue_front :: "'a PollingLinkQueue \<Rightarrow> 'a Activity_scheme option" where
  "PollingLinkQueue_front data =
     (if length data = 0 then None else case data of it # rest \<Rightarrow> Some it)"

text \<open>
  A client of a queue: a sequence of calls of \<open>insert\<close> and \<open>pop\<close>, made on the queue
  the constructor leaves (an empty \<open>data\<close>).
\<close>

datatype 'a queue_call = Insert 'a | Pop

fun PollingLinkQueue_run ::
  "'a Activity_scheme queue_call list \<Rightarrow> 'a PollingLinkQueue \<Rightarrow> 'a PollingLinkQueue" where
  "PollingLinkQueue_run [] data = data"
| "PollingLinkQueue_run (Insert activity # calls) data =
     PollingLinkQueue_run calls (PollingLinkQueue_insert activity data)"
| "PollingLinkQueue_run (Pop # calls) data =
     PollingLinkQueue_run calls (snd (PollingLinkQueue_pop data))"

text \<open>Inserting a list of Activities one after the other, first to last.\<close>

definition PollingLinkQueue_fill :: "'a Activity_scheme list \<Rightarrow> 'a PollingLinkQueue" where
  "PollingLinkQueue_fill acts =
     foldl (\<lambda>data activity. PollingLinkQueue_insert activity data) PollingLinkQueue_new acts"

text \<open>Popping until \<open>pop\<close> returns \<open>NULL\<close>; the result is the pop order.\<close>

function PollingLinkQueue_drain :: "'a PollingLinkQueue \<Rightarrow> 'a Activity_scheme list" where
  "PollingLinkQueue_drain data =
     (case PollingLinkQueue_pop data of
        (None, _) \<Rightarrow> []
      | (Some activity, data') \<Rightarrow> activity # PollingLinkQueue_drain data')"
  by pat_completeness auto
termination
  by (relation "measure length")
     (auto simp: PollingLinkQueue_pop_def split: if_splits list.splits)


declare PollingLinkQueue_drain.simps [simp del]

subsection \<open>TimeVortex (timeVortex.h)\<close>

text \<open>
  Modelled from the spec: \<open>Activity::less_time_priority\<close>, the comparator that
  \<open>timeVortex.h\<close> gives to \<open>data\<close> (\<open>activity.h\<close> is not among the sources).
  "Ordering is lexicographic \<open>(delivery_time, priority, sequence)\<close>", a lower priority
  value first.
\<close>

definition less_time_priority :: "'a Activity_scheme \<Rightarrow> 'a Activity_scheme \<Rightarrow> bool" where
  "less_time_priority lhs rhs \<longleftrightarrow>
     delivery_time lhs < delivery_time rhs
     \<or> (delivery_time lhs = delivery_time rhs
        \<and> (priority lhs < priority rhs
           \<or> (priority lhs = priority rhs \<and> sequence lhs < sequence rhs)))"


text \<open>
  The header declares \<open>std::multiset<Activity*, Activity::less_time_priority> data\<close> and
  the five member functions of ActivityQueue.

  Modelled from the spec: the bodies of \<open>TimeVortex::empty\<close>, \<open>size\<close>, \<open>insert\<close>,
  \<open>pop\<close> and \<open>front\<close> (\<open>timeVortex.cc\<close> is not among the sources). "\<open>pop\<close> removes
  and returns the minimum by the queue's ordering; \<open>front\<close> returns without removing.
  \<open>pop\<close>/\<open>front\<close> return nothing when empty"; \<open>insert\<close> is the insertion of the
  declared container.
\<close>

type_synonym 'a TimeVortex = "'a Activity_scheme list"

definition TimeVortex_new :: "'a TimeVortex" where
  "TimeVortex_new = []"

definition TimeVortex_empty :: "'a TimeVortex \<Rightarrow> bool" where
  "TimeVortex_empty data \<longleftrightarrow> data = []"

definition TimeVortex_size :: "'a TimeVortex \<Rightarrow> int" where
  "TimeVortex_size data = sint (word_of_nat (length data) :: 32 word)"

definition TimeVortex_insert :: "'a Activity_scheme \<Rightarrow> 'a TimeVortex \<Rightarrow> 'a TimeVortex" where
  "TimeVortex_insert activity data = multiset_insert less_time_priority activity data"

definition TimeVortex_pop :: "'a TimeVortex \<Rightarrow> 'a Activity_scheme option \<times> 'a TimeVortex" where
  "TimeVortex_pop data = (case data of [] \<Rightarrow> (None, data) | it # rest \<Rightarrow> (Some it, rest))"

definition TimeVortex_front :: "'a TimeVortex \<Rightarrow> 'a Activity_scheme option" where
  "TimeVortex_front data = (case data of [] \<Rightarrow> None | it # rest \<Rightarrow> Some it)"







subsection \<open>SyncQueue as an ActivityQueue\<close>

text \<open>
  Modelled from the spec: \<open>SyncQueue\<close> as a queue (\<open>syncQueue.h\<close> and \<open>syncQueue.cc\<close>
  are not among the sources). It is an "ordered sequence of Activities buffered for
  transmission to one peer rank", "appends are in sender order", and as every queue of
  the system it has the operations of ActivityQueue: "\<open>pop\<close> removes and returns the
  minimum by the queue's ordering; \<open>front\<close> returns without removing. \<open>pop\<close>/\<open>front\<close>
  return nothing when empty". The ordering of the sequence is the order of the appends.
\<close>

type_synonym 'a SyncQueue = "'a Activity_scheme list"

definition SyncQueue_new :: "'a SyncQueue" where
  "SyncQueue_new = []"

definition SyncQueue_empty :: "'a SyncQueue \<Rightarrow> bool" where
  "SyncQueue_empty data \<longleftrightarrow> data = []"

definition SyncQueue_insert :: "'a Activity_scheme \<Rightarrow> 'a SyncQueue \<Rightarrow> 'a SyncQueue" where
  "SyncQueue_insert activity data = data @ [activity]"

definition SyncQueue_pop :: "'a SyncQueue \<Rightarrow> 'a Activity_scheme option \<times> 'a SyncQueue" where
  "SyncQueue_pop data = (case data of [] \<Rightarrow> (None, data) | it # rest \<Rightarrow> (Some it, rest))"

definition SyncQueue_front :: "'a SyncQueue \<Rightarrow> 'a Activity_scheme option" where
  "SyncQueue_front data = (case data of [] \<Rightarrow> None | it # rest \<Rightarrow> Some it)"

section \<open>Sync (sync.cc)\<close>

subsection \<open>The objects around a Sync\<close>

text \<open>
  \<open>Link\<close>, \<open>SyncQueue\<close>, \<open>Simulation\<close> and the message-passing communicator are
  classes whose code is not among the sources. A \<open>Link*\<close> is the address of the link.
  What Sync does to these objects is recorded, call by call and in program order, in
  the \<open>log\<close> of the world it runs in.
\<close>

type_synonym Link = nat
type_synonym addr = nat

datatype call =
    Isend int nat "Event list"
      \<comment> \<open>\<open>comm.isend(rank, tag, queue->getVector())\<close>, with the vector's contents\<close>
  | Irecv int nat addr
      \<comment> \<open>\<open>comm.irecv(rank, tag, buffer)\<close>\<close>
  | Wait_all nat
      \<comment> \<open>\<open>boost::mpi::wait_all\<close> over that many pending requests\<close>
  | SyncQueue_clear addr
  | Link_Send Link SimTime_t Event
      \<comment> \<open>\<open>link->Send(delay, ev)\<close>\<close>
  | Vector_clear addr
  | Printf string "int list"
      \<comment> \<open>the format string and the arguments\<close>
  | Abort
  | InsertActivity SimTime_t Activity
      \<comment> \<open>\<open>sim->insertActivity(time, this)\<close>, with the Activity fields of \<open>this\<close>\<close>
  | Link_moveInitDataToRecvQueue Link
  | Link_sendInitData Link Event

text \<open>
  Modelled from the spec: \<open>SyncQueue\<close> (\<open>syncQueue.h\<close> is not among the sources), an
  "ordered sequence of Activities buffered for transmission to one peer rank" with "a
  \<open>get_vector()\<close> accessor that yields the internal sequence" and \<open>clear()\<close>.

  A SyncQueue and a receive buffer (\<open>std::vector<Activity*>\<close>) are heap objects, made by
  \<open>new\<close> and held through pointers: the heap maps an address to the sequence the object
  holds, and \<open>allocated\<close> counts the objects made so far, so that \<open>new\<close> returns the
  address \<open>allocated\<close>, which no earlier object has.
\<close>

record world =
  heap :: "addr \<Rightarrow> Event list"
  allocated :: nat
  current_sim_cycle :: SimTime_t
  log :: "call list"

definition new_object :: "world \<Rightarrow> addr \<times> world" where
  "new_object w =
     (allocated w, w\<lparr>heap := (heap w)(allocated w := []), allocated := Suc (allocated w)\<rparr>)"

definition emit :: "call list \<Rightarrow> world \<Rightarrow> world" where
  "emit cs w = w\<lparr>log := log w @ cs\<rparr>"

text \<open>
  \<open>std::map\<close>: the entries in ascending order of their keys, one entry for a key.
  \<open>m[k] = v\<close> replaces the value of an entry or makes the entry at its place;
  \<open>find\<close> is \<^const>\<open>map_of\<close>, and \<open>count(k) == 0\<close> says that \<open>find\<close> finds nothing.
\<close>

fun map_assign :: "'k::linorder \<Rightarrow> 'v \<Rightarrow> ('k \<times> 'v) list \<Rightarrow> ('k \<times> 'v) list" where
  "map_assign k v [] = [(k, v)]"
| "map_assign k v ((k', v') # m) =
     (if k < k' then (k, v) # (k', v') # m
      else if k = k' then (k, v) # m
      else (k', v') # map_assign k v m)"

text \<open>
  A Sync is an Action, which is an Activity. \<open>period\<close> is the factor of the
  TimeConverter it points to; an entry of \<open>comm_map\<close> holds, for a peer rank, the pointer
  to the send-side SyncQueue and the pointer to the receive buffer; \<open>comm\<close> is the
  communicator.
\<close>

record Sync = Activity +
  period :: SimTime_t
  comm_map :: "(int \<times> addr \<times> addr) list"
  link_map :: "(LinkId_t \<times> Link) list"
  comm :: nat

datatype outcome = Returned world | Aborted world

subsection \<open>Sync::Sync\<close>

text \<open>
  \<open>action\<close> is what the constructor of the base class leaves in the Activity fields,
  \<open>world_comm\<close> the default-constructed communicator.
\<close>

definition Sync_Sync :: "Activity \<Rightarrow> SimTime_t \<Rightarrow> nat \<Rightarrow> world \<Rightarrow> Sync \<times> world" where
  "Sync_Sync action period_factor world_comm w =
     (let this = \<lparr>delivery_time = delivery_time action, priority = priority action,
                  sequence = sequence action, period = period_factor,
                  comm_map = [], link_map = [], comm = world_comm\<rparr>;
          next = current_sim_cycle w + period_factor;
          this = this\<lparr>priority := 25\<rparr>
      in (this, emit [InsertActivity next (Activity.truncate this)] w))"

subsection \<open>Sync::registerLink\<close>

definition Sync_registerLink ::
  "int \<Rightarrow> LinkId_t \<Rightarrow> Link \<Rightarrow> Sync \<Rightarrow> world \<Rightarrow> addr \<times> Sync \<times> world" where
  "Sync_registerLink rank lnk_id link this w =
     (let (queue, this, w) =
        (case map_of (comm_map this) rank of
           None \<Rightarrow>
             (let (queue, w) = new_object w;
                  (buffer, w) = new_object w
              in (queue, this\<lparr>comm_map := map_assign rank (queue, buffer) (comm_map this)\<rparr>, w))
         | Some (queue, buffer) \<Rightarrow> (queue, this, w))
      in (queue, this\<lparr>link_map := map_assign lnk_id link (link_map this)\<rparr>, w))"

text \<open>Registering a list of links, first to last; the SyncQueues returned, in that order.\<close>

fun Sync_registerLinks ::
  "(int \<times> LinkId_t \<times> Link) list \<Rightarrow> Sync \<Rightarrow> world \<Rightarrow> addr list \<times> Sync \<times> world" where
  "Sync_registerLinks [] this w = ([], this, w)"
| "Sync_registerLinks ((rank, lnk_id, link) # rest) this w =
     (let (queue, this, w) = Sync_registerLink rank lnk_id link this w;
          (queues, this, w) = Sync_registerLinks rest this w
      in (queue # queues, this, w))"

subsection \<open>Sync::execute\<close>

text \<open>The first loop: a send and a receive posted for every entry of \<open>comm_map\<close>.\<close>

fun post_requests :: "(int \<times> addr \<times> addr) list \<Rightarrow> world \<Rightarrow> world" where
  "post_requests [] w = w"
| "post_requests ((rank, queue, buffer) # rest) w =
     post_requests rest (emit [Isend rank 0 (heap w queue), Irecv rank 0 buffer] w)"

text \<open>
  \<open>wait_all\<close> returns when every posted request is complete. What the peers send,
  \<open>incoming rank\<close> for each rank, comes from outside the partition; a completed receive
  leaves it in the buffer whose pointer \<open>irecv\<close> was given.
\<close>

fun complete_requests ::
  "(int \<Rightarrow> Event list) \<Rightarrow> (int \<times> addr \<times> addr) list \<Rightarrow> world \<Rightarrow> world" where
  "complete_requests incoming [] w = w"
| "complete_requests incoming ((rank, queue, buffer) # rest) w =
     complete_requests incoming rest (w\<lparr>heap := (heap w)(buffer := incoming rank)\<rparr>)"

definition wait_all ::
  "(int \<Rightarrow> Event list) \<Rightarrow> (int \<times> addr \<times> addr) list \<Rightarrow> world \<Rightarrow> world" where
  "wait_all incoming posted w =
     emit [Wait_all (2 * length posted)] (complete_requests incoming posted w)"

definition link_not_found :: "call list" where
  "link_not_found = [Printf (''Link not found in map!'' @ [CHR 0x0A]) [], Abort]"

text \<open>The inner loop of \<open>execute\<close>, over the Activities of one receive buffer.\<close>

fun Sync_execute_events ::
  "(LinkId_t \<times> Link) list \<Rightarrow> SimTime_t \<Rightarrow> Event list \<Rightarrow> world \<Rightarrow> outcome" where
  "Sync_execute_events links current_cycle [] w = Returned w"
| "Sync_execute_events links current_cycle (ev # rest) w =
     (case map_of links (link_id ev) of
        None \<Rightarrow> Aborted (emit link_not_found w)
      | Some link \<Rightarrow>
          (let delay = delivery_time ev - current_cycle
           in Sync_execute_events links current_cycle rest (emit [Link_Send link delay ev] w)))"

text \<open>The second loop of \<open>execute\<close>, over the entries of \<open>comm_map\<close>.\<close>

fun Sync_execute_ranks ::
  "(LinkId_t \<times> Link) list \<Rightarrow> SimTime_t \<Rightarrow> (int \<times> addr \<times> addr) list \<Rightarrow> world \<Rightarrow> outcome" where
  "Sync_execute_ranks links current_cycle [] w = Returned w"
| "Sync_execute_ranks links current_cycle ((rank, queue, buffer) # rest) w =
     (let w = emit [SyncQueue_clear queue] (w\<lparr>heap := (heap w)(queue := [])\<rparr>)
      in case Sync_execute_events links current_cycle (heap w buffer) w of
           Aborted w \<Rightarrow> Aborted w
         | Returned w \<Rightarrow>
             Sync_execute_ranks links current_cycle rest
               (emit [Vector_clear buffer] (w\<lparr>heap := (heap w)(buffer := [])\<rparr>)))"

definition Sync_execute :: "Sync \<Rightarrow> (int \<Rightarrow> Event list) \<Rightarrow> world \<Rightarrow> outcome" where
  "Sync_execute this incoming w =
     (let w = post_requests (comm_map this) w;
          w = wait_all incoming (comm_map this) w;
          current_cycle = current_sim_cycle w
      in case Sync_execute_ranks (link_map this) current_cycle (comm_map this) w of
           Aborted w \<Rightarrow> Aborted w
         | Returned w \<Rightarrow>
             (let next = current_sim_cycle w + period this
              in Returned (emit [InsertActivity next (Activity.truncate this)] w)))"

subsection \<open>Sync::exchangeLinkInitData\<close>

text \<open>
  A LinkInitData item is an Activity with a link id, as an Event is; the record of
  Events stands for both. \<open>Link::moveInitDataToRecvQueue\<close> is not among the sources:
  what it does to the SyncQueues is the parameter \<open>move\<close>.
\<close>

fun move_init_data ::
  "(Link \<Rightarrow> (addr \<Rightarrow> Event list) \<Rightarrow> (addr \<Rightarrow> Event list)) \<Rightarrow> (LinkId_t \<times> Link) list
     \<Rightarrow> world \<Rightarrow> world" where
  "move_init_data move [] w = w"
| "move_init_data move ((lnk_id, link) # rest) w =
     move_init_data move rest
       (emit [Link_moveInitDataToRecvQueue link] (w\<lparr>heap := move link (heap w)\<rparr>))"

fun Sync_exchange_items :: "(LinkId_t \<times> Link) list \<Rightarrow> Event list \<Rightarrow> world \<Rightarrow> outcome" where
  "Sync_exchange_items links [] w = Returned w"
| "Sync_exchange_items links (lid # rest) w =
     (case map_of links (link_id lid) of
        None \<Rightarrow> Aborted (emit link_not_found w)
      | Some link \<Rightarrow>
          (let lid = lid\<lparr>link_id := - 1\<rparr>
           in Sync_exchange_items links rest (emit [Link_sendInitData link lid] w)))"

fun Sync_exchange_ranks ::
  "(LinkId_t \<times> Link) list \<Rightarrow> (int \<times> addr \<times> addr) list \<Rightarrow> world \<Rightarrow> outcome" where
  "Sync_exchange_ranks links [] w = Returned w"
| "Sync_exchange_ranks links ((rank, queue, buffer) # rest) w =
     (let w = emit [SyncQueue_clear queue] (w\<lparr>heap := (heap w)(queue := [])\<rparr>)
      in case Sync_exchange_items links (heap w buffer) w of
           Aborted w \<Rightarrow> Aborted w
         | Returned w \<Rightarrow>
             Sync_exchange_ranks links rest
               (emit [Vector_clear buffer] (w\<lparr>heap := (heap w)(buffer := [])\<rparr>)))"

definition Sync_exchangeLinkInitData ::
  "(Link \<Rightarrow> (addr \<Rightarrow> Event list) \<Rightarrow> (addr \<Rightarrow> Event list)) \<Rightarrow> Sync
     \<Rightarrow> (int \<Rightarrow> Event list) \<Rightarrow> world \<Rightarrow> outcome" where
  "Sync_exchangeLinkInitData move this incoming w =
     (let w = move_init_data move (link_map this) w;
          w = post_requests (comm_map this) w;
          w = wait_all incoming (comm_map this) w
      in Sync_exchange_ranks (link_map this) (comm_map this) w)"

subsection \<open>Sync::serialize\<close>

text \<open>
  What \<open>ar & x\<close> adds to an archive that is being written: the base object, or a named
  value. A pointer is written as the object it points to: an entry of \<open>comm_map\<close> as
  the rank with the contents of its SyncQueue and of its receive buffer.
\<close>

datatype archived =
    Base_Action Activity
  | NVP_period SimTime_t
  | NVP_comm_map "(int \<times> Event list \<times> Event list) list"
  | NVP_link_map "(LinkId_t \<times> Link) list"

definition Sync_serialize :: "Sync \<Rightarrow> archived list \<Rightarrow> world \<Rightarrow> archived list \<times> world" where
  "Sync_serialize this ar w =
     (let w = emit [Printf (''begin Sync::serialize'' @ [CHR 0x0A]) []] w;
          ar = ar @ [Base_Action (Activity.truncate this)];
          w = emit [Printf (''  - Sync::period'' @ [CHR 0x0A]) []] w;
          ar = ar @ [NVP_period (period this)];
          w = emit [Printf (''  - Sync::comm_map (%d)'' @ [CHR 0x0A])
                      [int (length (comm_map this))]] w;
          ar = ar @ [NVP_comm_map
                       (map (\<lambda>(rank, queue, buffer). (rank, heap w queue, heap w buffer))
                          (comm_map this))];
          w = emit [Printf (''  - Sync::link_map (%d)'' @ [CHR 0x0A])
                      [int (length (link_map this))]] w;
          ar = ar @ [NVP_link_map (link_map this)];
          w = emit [Printf (''end Sync::serialize'' @ [CHR 0x0A]) []] w
      in (ar, w))"

subsection \<open>Reading a comm_map, a receive buffer and a log\<close>

definition queues_of :: "(int \<times> addr \<times> addr) list \<Rightarrow> addr list" where
  "queues_of cm = map (\<lambda>(rank, queue, buffer). queue) cm"

definition buffers_of :: "(int \<times> addr \<times> addr) list \<Rightarrow> addr list" where
  "buffers_of cm = map (\<lambda>(rank, queue, buffer). buffer) cm"

text \<open>No two pointers of a \<open>comm_map\<close> point to the same object.\<close>

definition separate :: "(int \<times> addr \<times> addr) list \<Rightarrow> bool" where
  "separate cm \<longleftrightarrow> distinct (queues_of cm @ buffers_of cm)"

text \<open>What the peers send to this partition, in the order in which \<open>comm_map\<close> is walked.\<close>

definition received :: "(int \<times> addr \<times> addr) list \<Rightarrow> (int \<Rightarrow> Event list) \<Rightarrow> Event list" where
  "received cm incoming = concat (map (\<lambda>(rank, queue, buffer). incoming rank) cm)"

text \<open>An Activity whose link id \<open>link_map.find\<close> finds.\<close>

definition known :: "(LinkId_t \<times> Link) list \<Rightarrow> Event \<Rightarrow> bool" where
  "known links ev \<longleftrightarrow> map_of links (link_id ev) \<noteq> None"

definition link_of :: "(LinkId_t \<times> Link) list \<Rightarrow> Event \<Rightarrow> Link" where
  "link_of links ev = (case map_of links (link_id ev) of Some link \<Rightarrow> link | None \<Rightarrow> 0)"

text \<open>The calls of \<open>Link::Send\<close> and of \<open>Link::sendInitData\<close> in a log, in their order.\<close>

definition sends_of :: "call list \<Rightarrow> (Link \<times> SimTime_t \<times> Event) list" where
  "sends_of cs =
     concat (map (\<lambda>c. case c of Link_Send link delay ev \<Rightarrow> [(link, delay, ev)] | _ \<Rightarrow> []) cs)"

definition init_sends_of :: "call list \<Rightarrow> (Link \<times> Event) list" where
  "init_sends_of cs =
     concat (map (\<lambda>c. case c of Link_sendInitData link lid \<Rightarrow> [(link, lid)] | _ \<Rightarrow> []) cs)"

definition world_of :: "outcome \<Rightarrow> world" where
  "world_of out = (case out of Returned w \<Rightarrow> w | Aborted w \<Rightarrow> w)"

definition has_aborted :: "outcome \<Rightarrow> bool" where
  "has_aborted out = (case out of Returned w \<Rightarrow> False | Aborted w \<Rightarrow> True)"

text \<open>The calls that a run from the world \<open>w\<close> has added to the log.\<close>

definition calls_since :: "world \<Rightarrow> outcome \<Rightarrow> call list" where
  "calls_since w out = drop (length (log w)) (log (world_of out))"

text \<open>
  The five steps of \<open>execute\<close> as the specification numbers them: 1 posting a send or a
  receive, 2 the wait, 3 clearing a send-side SyncQueue, 4 dispatching a received
  Activity to its link, 5 re-inserting the Sync. The other calls belong to no step.
  A log has the steps in the specification's order when the step numbers of its calls
  never go down.
\<close>

definition step_of :: "call \<Rightarrow> nat" where
  "step_of c =
     (case c of
        Isend rank tag evs \<Rightarrow> 1
      | Irecv rank tag buffer \<Rightarrow> 1
      | Wait_all n \<Rightarrow> 2
      | SyncQueue_clear queue \<Rightarrow> 3
      | Link_Send link delay ev \<Rightarrow> 4
      | InsertActivity time activity \<Rightarrow> 5
      | _ \<Rightarrow> 0)"

definition steps_of :: "call list \<Rightarrow> nat list" where
  "steps_of cs = filter (\<lambda>n. n \<noteq> 0) (map step_of cs)"


text \<open>The calls \<open>execute\<close> makes for one entry of \<open>comm_map\<close> in its first and second loop.\<close>

definition post_calls :: "(addr \<Rightarrow> Event list) \<Rightarrow> int \<times> addr \<times> addr \<Rightarrow> call list" where
  "post_calls h entry =
     (case entry of (rank, queue, buffer) \<Rightarrow> [Isend rank 0 (h queue), Irecv rank 0 buffer])"

definition send_call :: "(LinkId_t \<times> Link) list \<Rightarrow> SimTime_t \<Rightarrow> Event \<Rightarrow> call" where
  "send_call links current_cycle ev =
     Link_Send (link_of links ev) (delivery_time ev - current_cycle) ev"

definition dispatch_calls ::
  "(LinkId_t \<times> Link) list \<Rightarrow> SimTime_t \<Rightarrow> (int \<Rightarrow> Event list) \<Rightarrow> int \<times> addr \<times> addr
     \<Rightarrow> call list" where
  "dispatch_calls links current_cycle incoming entry =
     (case entry of (rank, queue, buffer) \<Rightarrow>
        SyncQueue_clear queue # map (send_call links current_cycle) (incoming rank)
          @ [Vector_clear buffer])"

definition init_send_call :: "(LinkId_t \<times> Link) list \<Rightarrow> Event \<Rightarrow> call" where
  "init_send_call links lid = Link_sendInitData (link_of links lid) (lid\<lparr>link_id := - 1\<rparr>)"

definition init_dispatch_calls ::
  "(LinkId_t \<times> Link) list \<Rightarrow> (int \<Rightarrow> Event list) \<Rightarrow> int \<times> addr \<times> addr \<Rightarrow> call list" where
  "init_dispatch_calls links incoming entry =
     (case entry of (rank, queue, buffer) \<Rightarrow>
        SyncQueue_clear queue # map (init_send_call links) (incoming rank)
          @ [Vector_clear buffer])"

text \<open>The SyncQueue that a Sync holds for a peer rank, if it holds one.\<close>

definition queue_for :: "Sync \<Rightarrow> int \<Rightarrow> addr option" where
  "queue_for this rank = map_option fst (map_of (comm_map this) rank)"

text \<open>
  The pointers of a Sync are sound in a world: they point to objects that have been
  allocated, and no two of them to the same object.
\<close>

definition pointers_sound :: "Sync \<Rightarrow> world \<Rightarrow> bool" where
  "pointers_sound this w \<longleftrightarrow>
     separate (comm_map this)
     \<and> list_all (\<lambda>a. a < allocated w) (queues_of (comm_map this) @ buffers_of (comm_map this))"

subsection \<open>A partition with two peers\<close>

text \<open>
  A Sync of period 4 with the peer ranks 1 and 2 and the links 40, 70 and 90 under the
  link ids 4, 7 and 9, at simulation cycle 8; the SyncQueue for rank 1 holds one Event to
  send.
\<close>

definition outgoing :: Event where
  "outgoing = \<lparr>delivery_time = 14, priority = 0, sequence = 3, link_id = 2, payload = 0\<rparr>"

definition barrier_sync :: Sync where
  "barrier_sync = \<lparr>delivery_time = 0, priority = 25, sequence = 0, period = 4,
     comm_map = [(1, 0, 1), (2, 2, 3)], link_map = [(4, 40), (7, 70), (9, 90)], comm = 0\<rparr>"

definition barrier_world :: world where
  "barrier_world = \<lparr>heap = (\<lambda>a. [])(0 := [outgoing]), allocated = 4,
     current_sim_cycle = 8, log = []\<rparr>"

text \<open>
  Events a peer can send: one due after the barrier, one whose delivery time is before
  the barrier's cycle, and one for a link id that this partition does not have.
\<close>

definition on_time :: Event where
  "on_time = \<lparr>delivery_time = 9, priority = 0, sequence = 0, link_id = 7, payload = 1\<rparr>"

definition late :: Event where
  "late = \<lparr>delivery_time = 3, priority = 0, sequence = 1, link_id = 9, payload = 2\<rparr>"

definition stray :: Event where
  "stray = \<lparr>delivery_time = 12, priority = 0, sequence = 2, link_id = 5, payload = 3\<rparr>"

definition peer_sends :: "Event list \<Rightarrow> Event list \<Rightarrow> int \<Rightarrow> Event list" where
  "peer_sends from_1 from_2 rank = (if rank = 1 then from_1 else if rank = 2 then from_2 else [])"

text \<open>
  The init phase: link 70 has one LinkInitData item to send, which
  \<open>moveInitDataToRecvQueue\<close> appends to the SyncQueue at address 0; the peers send an
  item for link id 9 and an item for link id 7.
\<close>

definition greeting :: Event where
  "greeting = \<lparr>delivery_time = 0, priority = 0, sequence = 4, link_id = 2, payload = 11\<rparr>"

definition init_move :: "Link \<Rightarrow> (addr \<Rightarrow> Event list) \<Rightarrow> (addr \<Rightarrow> Event list)" where
  "init_move link h = (if link = 70 then h(0 := h 0 @ [greeting]) else h)"

definition hello_9 :: Event where
  "hello_9 = \<lparr>delivery_time = 0, priority = 0, sequence = 0, link_id = 9, payload = 21\<rparr>"

definition hello_7 :: Event where
  "hello_7 = \<lparr>delivery_time = 0, priority = 0, sequence = 0, link_id = 7, payload = 22\<rparr>"

text \<open>
  The partition before its Sync exists, and the three links it registers: two to rank 1
  and one to rank 2.
\<close>

definition start_action :: Activity where
  "start_action = \<lparr>delivery_time = 0, priority = 0, sequence = 0\<rparr>"

definition start_world :: world where
  "start_world = \<lparr>heap = (\<lambda>a. []), allocated = 0, current_sim_cycle = 8, log = []\<rparr>"

definition three_links :: "(int \<times> LinkId_t \<times> Link) list" where
  "three_links = [(1, 7, 70), (2, 9, 90), (1, 4, 40)]"

section \<open>Concrete runs\<close>

text \<open>Four Activities for a PollingLinkQueue: two delivery times, four priorities.\<close>

definition poll_a :: Activity where
  "poll_a = \<lparr>delivery_time = 7, priority = 1, sequence = 0\<rparr>"

definition poll_b :: Activity where
  "poll_b = \<lparr>delivery_time = 3, priority = 9, sequence = 1\<rparr>"

definition poll_c :: Activity where
  "poll_c = \<lparr>delivery_time = 7, priority = 0, sequence = 2\<rparr>"

definition poll_d :: Activity where
  "poll_d = \<lparr>delivery_time = 3, priority = 2, sequence = 3\<rparr>"

definition poll_calls :: "Activity queue_call list" where
  "poll_calls = [Insert poll_a, Insert poll_b, Pop, Insert poll_c]"

text \<open>
  The priority tiebreak scenario: three Activities enqueued at delivery time 10 with
  priorities 5, 2 and 2, numbered in that order, and a fourth made after them.
\<close>

definition tie_a :: Activity where
  "tie_a = \<lparr>delivery_time = 10, priority = 5, sequence = 0\<rparr>"





section \<open>The ordered containers keep their order\<close>

lemma mset_multiset_insert: "mset (multiset_insert lt a xs) = add_mset a (mset xs)"
  by (induction xs) auto

lemma set_multiset_insert: "set (multiset_insert lt a xs) = insert a (set xs)"
  by (induction xs) auto

lemma sorted_multiset_insert:
  fixes f :: "'a \<Rightarrow> 'k::linorder"
  shows "sorted (map f xs) \<Longrightarrow> sorted (map f (multiset_insert (\<lambda>a b. f a < f b) a xs))"
  by (induction xs) (auto simp: set_multiset_insert)

lemma filter_multiset_insert_other:
  "\<not> P a \<Longrightarrow> filter P (multiset_insert lt a xs) = filter P xs"
  by (induction xs) auto

lemma filter_multiset_insert_last:
  fixes f :: "'a \<Rightarrow> 'k::linorder"
  assumes "P a" "sorted (map f xs)" "\<forall>x\<in>set xs. P x \<longrightarrow> f x \<le> f a"
  shows "filter P (multiset_insert (\<lambda>a b. f a < f b) a xs) = filter P xs @ [a]"
  using assms
proof (induction xs)
  case Nil
  then show ?case by simp
next
  case (Cons x xs)
  show ?case
  proof (cases "f a < f x")
    case True
    have "\<forall>y\<in>set (x # xs). \<not> P y"
    proof
      fix y assume y: "y \<in> set (x # xs)"
      with Cons.prems(2) have "f x \<le> f y" by auto
      with True have "f a < f y" by simp
      with Cons.prems(3) y show "\<not> P y" by fastforce
    qed
    then have "filter P (x # xs) = []" by (simp add: filter_empty_conv)
    with True Cons.prems(1) show ?thesis by simp
  next
    case False
    with Cons show ?thesis by auto
  qed
qed

lemma PollingLinkQueue_drain_eq: "PollingLinkQueue_drain q = q"
  by (induction q) (simp_all add: PollingLinkQueue_pop_def PollingLinkQueue_drain.simps)

lemma less_time_key: "less_time = (\<lambda>a b. delivery_time a < delivery_time b)"
  by (intro ext) (simp add: less_time_def)

lemma PollingLinkQueue_insert_sorted:
  "sorted (map delivery_time q) \<Longrightarrow> sorted (map delivery_time (PollingLinkQueue_insert a q))"
  unfolding PollingLinkQueue_insert_def less_time_key by (rule sorted_multiset_insert)

lemma PollingLinkQueue_pop_sorted:
  "sorted (map delivery_time q) \<Longrightarrow> sorted (map delivery_time (snd (PollingLinkQueue_pop q)))"
  by (cases q) (simp_all add: PollingLinkQueue_pop_def)

lemma PollingLinkQueue_run_sorted:
  "sorted (map delivery_time q) \<Longrightarrow> sorted (map delivery_time (PollingLinkQueue_run calls q))"
proof (induction calls arbitrary: q)
  case Nil
  then show ?case by simp
next
  case (Cons c calls)
  then show ?case
    by (cases c) (simp_all add: PollingLinkQueue_insert_sorted PollingLinkQueue_pop_sorted)
qed

lemma PollingLinkQueue_insert_same_time:
  assumes "sorted (map delivery_time q)"
  shows "filter (\<lambda>x. delivery_time x = t) (PollingLinkQueue_insert a q)
         = filter (\<lambda>x. delivery_time x = t) q @ (if delivery_time a = t then [a] else [])"
proof (cases "delivery_time a = t")
  case True
  have "filter (\<lambda>x. delivery_time x = t)
          (multiset_insert (\<lambda>a b. delivery_time a < delivery_time b) a q)
        = filter (\<lambda>x. delivery_time x = t) q @ [a]"
    by (rule filter_multiset_insert_last) (use True assms in auto)
  with True show ?thesis by (simp add: PollingLinkQueue_insert_def less_time_key)
next
  case False
  then show ?thesis
    by (simp add: PollingLinkQueue_insert_def filter_multiset_insert_other)
qed

lemma PollingLinkQueue_fill_snoc:
  "PollingLinkQueue_fill (acts @ [a]) = PollingLinkQueue_insert a (PollingLinkQueue_fill acts)"
  by (simp add: PollingLinkQueue_fill_def)

lemma PollingLinkQueue_fill_sorted: "sorted (map delivery_time (PollingLinkQueue_fill acts))"
  by (induction acts rule: rev_induct)
     (simp_all add: PollingLinkQueue_fill_snoc PollingLinkQueue_insert_sorted,
      simp add: PollingLinkQueue_fill_def PollingLinkQueue_new_def)

lemma PollingLinkQueue_fill_mset: "mset (PollingLinkQueue_fill acts) = mset acts"
  by (induction acts rule: rev_induct)
     (simp_all add: PollingLinkQueue_fill_snoc PollingLinkQueue_insert_def mset_multiset_insert,
      simp add: PollingLinkQueue_fill_def PollingLinkQueue_new_def)

lemma PollingLinkQueue_fill_stable:
  "filter (\<lambda>x. delivery_time x = t) (PollingLinkQueue_fill acts)
   = filter (\<lambda>x. delivery_time x = t) acts"
  by (induction acts rule: rev_induct)
     (simp_all add: PollingLinkQueue_fill_snoc PollingLinkQueue_insert_same_time
        PollingLinkQueue_fill_sorted,
      simp add: PollingLinkQueue_fill_def PollingLinkQueue_new_def)
















section \<open>The loops of Sync::execute\<close>

lemma emit_simps [simp]:
  "log (emit cs w) = log w @ cs"
  "heap (emit cs w) = heap w"
  "allocated (emit cs w) = allocated w"
  "current_sim_cycle (emit cs w) = current_sim_cycle w"
  by (simp_all add: emit_def)

lemma emit_emit: "emit bs (emit as w) = emit (as @ bs) w"
  by (simp add: emit_def)

lemma emit_Nil: "emit [] w = w"
  by (simp add: emit_def)

lemma post_requests_effect:
  "log (post_requests cm w) = log w @ concat (map (post_calls (heap w)) cm)
   \<and> heap (post_requests cm w) = heap w
   \<and> allocated (post_requests cm w) = allocated w
   \<and> current_sim_cycle (post_requests cm w) = current_sim_cycle w"
  by (induction cm arbitrary: w) (auto simp: post_calls_def)

lemma complete_requests_frame:
  "log (complete_requests incoming cm w) = log w
   \<and> allocated (complete_requests incoming cm w) = allocated w
   \<and> current_sim_cycle (complete_requests incoming cm w) = current_sim_cycle w"
  by (induction cm arbitrary: w) auto

lemma complete_requests_other:
  "a \<notin> set (buffers_of cm) \<Longrightarrow> heap (complete_requests incoming cm w) a = heap w a"
  by (induction cm arbitrary: w) (auto simp: buffers_of_def)

lemma complete_requests_buffer:
  "distinct (buffers_of cm) \<Longrightarrow> (rank, queue, buffer) \<in> set cm \<Longrightarrow>
   heap (complete_requests incoming cm w) buffer = incoming rank"
proof (induction cm arbitrary: w)
  case Nil
  then show ?case by simp
next
  case (Cons e cm)
  obtain r q b where e: "e = (r, q, b)" by (cases e)
  show ?case
  proof (cases "(rank, queue, buffer) = e")
    case True
    with e Cons.prems(1) have "buffer \<notin> set (buffers_of cm)"
      by (simp add: buffers_of_def)
    with True e show ?thesis by (simp add: complete_requests_other)
  next
    case False
    with Cons.prems e have "(rank, queue, buffer) \<in> set cm" "distinct (buffers_of cm)"
      by (auto simp: buffers_of_def)
    with Cons.IH e show ?thesis by simp
  qed
qed

lemma Sync_execute_events_effect:
  "Sync_execute_events links cyc evs w =
     (if list_all (known links) evs
      then Returned (emit (map (send_call links cyc) evs) w)
      else Aborted (emit (map (send_call links cyc) (takeWhile (known links) evs)
                            @ link_not_found) w))"
proof (induction evs arbitrary: w)
  case Nil
  then show ?case by (simp add: emit_Nil)
next
  case (Cons ev evs)
  show ?case
  proof (cases "map_of links (link_id ev)")
    case None
    then show ?thesis by (simp add: known_def)
  next
    case (Some l)
    then have "known links ev" "send_call links cyc ev = Link_Send l (delivery_time ev - cyc) ev"
      by (simp_all add: known_def send_call_def link_of_def)
    with Some Cons.IH show ?thesis by (simp add: emit_emit)
  qed
qed

lemma separate_Cons:
  "separate ((r, q, b) # cm) \<Longrightarrow>
     separate cm \<and> q \<noteq> b \<and> q \<notin> set (queues_of cm) \<and> q \<notin> set (buffers_of cm)
     \<and> b \<notin> set (queues_of cm) \<and> b \<notin> set (buffers_of cm)"
  by (auto simp: separate_def queues_of_def buffers_of_def)

lemma buffers_of_mem: "(r, q, b) \<in> set cm \<Longrightarrow> b \<in> set (buffers_of cm)"
  by (force simp: buffers_of_def)

lemma queues_of_mem: "(r, q, b) \<in> set cm \<Longrightarrow> q \<in> set (queues_of cm)"
  by (force simp: queues_of_def)

lemma received_Cons: "received ((r, q, b) # cm) incoming = incoming r @ received cm incoming"
  by (simp add: received_def)

lemma Sync_execute_ranks_returned:
  assumes "separate cm"
    and "\<forall>(r, q, b)\<in>set cm. heap w b = incoming r"
    and "list_all (known links) (received cm incoming)"
  shows "\<exists>w'. Sync_execute_ranks links cyc cm w = Returned w'
           \<and> log w' = log w @ concat (map (dispatch_calls links cyc incoming) cm)
           \<and> current_sim_cycle w' = current_sim_cycle w
           \<and> allocated w' = allocated w
           \<and> (\<forall>a. heap w' a = (if a \<in> set (queues_of cm @ buffers_of cm) then [] else heap w a))"
  using assms
proof (induction cm arbitrary: w)
  case Nil
  then show ?case by (simp add: queues_of_def buffers_of_def)
next
  case (Cons e cm)
  obtain r q b where e: "e = (r, q, b)" by (cases e)
  from Cons.prems(1) e have sep: "separate cm" "q \<noteq> b" "q \<notin> set (buffers_of cm)"
    "b \<notin> set (buffers_of cm)"
    by (auto dest: separate_Cons)
  from Cons.prems(2) e have buf: "heap w b = incoming r" by simp
  from Cons.prems(3) e have kn: "list_all (known links) (incoming r)"
    "list_all (known links) (received cm incoming)"
    by (simp_all add: received_Cons)
  define w1 where "w1 = emit [SyncQueue_clear q] (w\<lparr>heap := (heap w)(q := [])\<rparr>)"
  define w2 where "w2 = emit (map (send_call links cyc) (incoming r)) w1"
  define w3 where "w3 = emit [Vector_clear b] (w2\<lparr>heap := (heap w2)(b := [])\<rparr>)"
  have h1: "heap w1 b = incoming r" using sep(2) buf by (simp add: w1_def)
  have ev: "Sync_execute_events links cyc (heap w1 b) w1 = Returned w2"
    using kn(1) by (simp add: Sync_execute_events_effect h1 w2_def)
  have step: "Sync_execute_ranks links cyc (e # cm) w = Sync_execute_ranks links cyc cm w3"
    using ev by (simp add: e w1_def [symmetric] w3_def Let_def)
  have h3: "\<forall>a. heap w3 a = (if a = q \<or> a = b then [] else heap w a)"
    by (simp add: w3_def w2_def w1_def)
  have "\<forall>(r', q', b')\<in>set cm. heap w3 b' = incoming r'"
  proof (clarify)
    fix r' q' b' assume m: "(r', q', b') \<in> set cm"
    then have "b' \<in> set (buffers_of cm)" by (rule buffers_of_mem)
    with sep have "b' \<noteq> q" "b' \<noteq> b" by auto
    moreover from m Cons.prems(2) have "heap w b' = incoming r'" by auto
    ultimately show "heap w3 b' = incoming r'" using h3 by simp
  qed
  from Cons.IH [OF sep(1) this kn(2)] obtain w' where
    w': "Sync_execute_ranks links cyc cm w3 = Returned w'"
      "log w' = log w3 @ concat (map (dispatch_calls links cyc incoming) cm)"
      "current_sim_cycle w' = current_sim_cycle w3"
      "allocated w' = allocated w3"
      "\<forall>a. heap w' a = (if a \<in> set (queues_of cm @ buffers_of cm) then [] else heap w3 a)"
    by blast
  have l3: "log w3 = log w @ dispatch_calls links cyc incoming e"
    by (simp add: w3_def w2_def w1_def dispatch_calls_def e)
  have f3: "current_sim_cycle w3 = current_sim_cycle w" "allocated w3 = allocated w"
    by (simp_all add: w3_def w2_def w1_def)
  have "\<forall>a. heap w' a = (if a \<in> set (queues_of (e # cm) @ buffers_of (e # cm)) then []
                           else heap w a)"
    using w'(5) h3 by (auto simp: e queues_of_def buffers_of_def)
  with step w' l3 f3 show ?case by simp
qed

lemma sends_of_append: "sends_of (as @ bs) = sends_of as @ sends_of bs"
  by (simp add: sends_of_def)

lemma sends_of_send_calls:
  "sends_of (map (send_call links cyc) evs)
   = map (\<lambda>ev. (link_of links ev, delivery_time ev - cyc, ev)) evs"
  by (induction evs) (simp_all add: sends_of_def send_call_def)

lemma sends_of_dispatch_calls:
  "sends_of (concat (map (dispatch_calls links cyc incoming) cm))
   = map (\<lambda>ev. (link_of links ev, delivery_time ev - cyc, ev)) (received cm incoming)"
proof (induction cm)
  case Nil
  then show ?case by (simp add: sends_of_def received_def)
next
  case (Cons e cm)
  obtain r q b where e: "e = (r, q, b)" by (cases e)
  have "sends_of (dispatch_calls links cyc incoming e)
        = map (\<lambda>ev. (link_of links ev, delivery_time ev - cyc, ev)) (incoming r)"
    using sends_of_send_calls [of links cyc "incoming r"]
    by (simp add: dispatch_calls_def e sends_of_def)
  with Cons show ?case by (simp add: sends_of_append received_Cons e)
qed

lemma steps_of_append: "steps_of (as @ bs) = steps_of as @ steps_of bs"
  by (simp add: steps_of_def)

lemma steps_of_send_calls: "set (steps_of (map (send_call links cyc) evs)) \<subseteq> {4}"
  by (induction evs) (auto simp: steps_of_def send_call_def step_of_def)

lemma steps_of_dispatch_calls:
  "set (steps_of (concat (map (dispatch_calls links cyc incoming) cm))) \<subseteq> {3, 4}"
proof (induction cm)
  case Nil
  then show ?case by (simp add: steps_of_def)
next
  case (Cons e cm)
  obtain r q b where e: "e = (r, q, b)" by (cases e)
  have "set (steps_of (dispatch_calls links cyc incoming e)) \<subseteq> {3, 4}"
    using steps_of_send_calls [of links cyc "incoming r"]
    by (auto simp: dispatch_calls_def e steps_of_def step_of_def)
  with Cons show ?case by (auto simp: steps_of_append)
qed

lemma Sync_execute_ranks_aborted:
  assumes "separate cm"
    and "\<forall>(r, q, b)\<in>set cm. heap w b = incoming r"
    and "\<not> list_all (known links) (received cm incoming)"
  shows "\<exists>w' cs. Sync_execute_ranks links cyc cm w = Aborted w'
           \<and> log w' = log w @ cs @ link_not_found
           \<and> sends_of cs = map (\<lambda>ev. (link_of links ev, delivery_time ev - cyc, ev))
                              (takeWhile (known links) (received cm incoming))
           \<and> set (steps_of cs) \<subseteq> {3, 4}"
  using assms
proof (induction cm arbitrary: w)
  case Nil
  then show ?case by (simp add: received_def)
next
  case (Cons e cm)
  obtain r q b where e: "e = (r, q, b)" by (cases e)
  from Cons.prems(1) e have sep: "separate cm" "q \<noteq> b" "q \<notin> set (buffers_of cm)"
    "b \<notin> set (buffers_of cm)"
    by (auto dest: separate_Cons)
  from Cons.prems(2) e have buf: "heap w b = incoming r" by simp
  define w1 where "w1 = emit [SyncQueue_clear q] (w\<lparr>heap := (heap w)(q := [])\<rparr>)"
  have h1: "heap w1 b = incoming r" using sep(2) buf by (simp add: w1_def)
  show ?case
  proof (cases "list_all (known links) (incoming r)")
    case True
    with Cons.prems(3) e have rest: "\<not> list_all (known links) (received cm incoming)"
      by (simp add: received_Cons)
    define w2 where "w2 = emit (map (send_call links cyc) (incoming r)) w1"
    define w3 where "w3 = emit [Vector_clear b] (w2\<lparr>heap := (heap w2)(b := [])\<rparr>)"
    have ev: "Sync_execute_events links cyc (heap w1 b) w1 = Returned w2"
      using True by (simp add: Sync_execute_events_effect h1 w2_def)
    have step: "Sync_execute_ranks links cyc (e # cm) w = Sync_execute_ranks links cyc cm w3"
      using ev by (simp add: e w1_def [symmetric] w3_def Let_def)
    have h3: "\<forall>a. heap w3 a = (if a = q \<or> a = b then [] else heap w a)"
      by (simp add: w3_def w2_def w1_def)
    have "\<forall>(r', q', b')\<in>set cm. heap w3 b' = incoming r'"
    proof (clarify)
      fix r' q' b' assume m: "(r', q', b') \<in> set cm"
      then have "b' \<in> set (buffers_of cm)" by (rule buffers_of_mem)
      with sep have "b' \<noteq> q" "b' \<noteq> b" by auto
      moreover from m Cons.prems(2) have "heap w b' = incoming r'" by auto
      ultimately show "heap w3 b' = incoming r'" using h3 by simp
    qed
    from Cons.IH [OF sep(1) this rest] obtain w' cs where
      w': "Sync_execute_ranks links cyc cm w3 = Aborted w'"
        "log w' = log w3 @ cs @ link_not_found"
        "sends_of cs = map (\<lambda>ev. (link_of links ev, delivery_time ev - cyc, ev))
                              (takeWhile (known links) (received cm incoming))"
        "set (steps_of cs) \<subseteq> {3, 4}"
      by blast
    have l3: "log w3 = log w @ dispatch_calls links cyc incoming e"
      by (simp add: w3_def w2_def w1_def dispatch_calls_def e)
    have tw: "takeWhile (known links) (received (e # cm) incoming)
              = incoming r @ takeWhile (known links) (received cm incoming)"
      using True by (simp add: received_Cons e list_all_iff)
    have s1: "sends_of (dispatch_calls links cyc incoming e)
              = map (\<lambda>ev. (link_of links ev, delivery_time ev - cyc, ev)) (incoming r)"
      using sends_of_dispatch_calls [of links cyc incoming "[e]"]
      by (simp add: received_def e)
    have s2: "set (steps_of (dispatch_calls links cyc incoming e)) \<subseteq> {3, 4}"
      using steps_of_dispatch_calls [of links cyc incoming "[e]"] by simp
    let ?cs = "dispatch_calls links cyc incoming e @ cs"
    have "log w' = log w @ ?cs @ link_not_found" using w'(2) l3 by simp
    moreover have "sends_of ?cs = map (\<lambda>ev. (link_of links ev, delivery_time ev - cyc, ev))
                              (takeWhile (known links) (received (e # cm) incoming))"
      using w'(3) s1 tw by (simp add: sends_of_append)
    moreover have "set (steps_of ?cs) \<subseteq> {3, 4}"
      using w'(4) s2 by (simp add: steps_of_append)
    ultimately show ?thesis using step w'(1) by metis
  next
    case False
    let ?pre = "map (send_call links cyc) (takeWhile (known links) (incoming r))"
    let ?w' = "emit (?pre @ link_not_found) w1"
    let ?cs = "SyncQueue_clear q # ?pre"
    have ev: "Sync_execute_events links cyc (heap w1 b) w1 = Aborted ?w'"
      using False by (simp add: Sync_execute_events_effect h1)
    have step: "Sync_execute_ranks links cyc (e # cm) w = Aborted ?w'"
      using ev by (simp add: e w1_def [symmetric] Let_def)
    from False obtain x where "x \<in> set (incoming r)" "\<not> known links x"
      by (auto simp: list_all_iff)
    then have tw: "takeWhile (known links) (received (e # cm) incoming)
              = takeWhile (known links) (incoming r)"
      by (simp add: received_Cons e)
    have "log ?w' = log w @ ?cs @ link_not_found" by (simp add: w1_def)
    moreover have "sends_of ?cs = map (\<lambda>ev. (link_of links ev, delivery_time ev - cyc, ev))
                              (takeWhile (known links) (received (e # cm) incoming))"
      using sends_of_send_calls [of links cyc "takeWhile (known links) (incoming r)"]
      by (simp add: tw sends_of_def)
    moreover have "set (steps_of ?cs) \<subseteq> {3, 4}"
      using steps_of_send_calls [of links cyc "takeWhile (known links) (incoming r)"]
      by (auto simp: steps_of_def step_of_def)
    ultimately show ?thesis using step by metis
  qed
qed

lemma wait_all_effect:
  assumes "separate cm"
  shows "log (wait_all incoming cm w) = log w @ [Wait_all (2 * length cm)]
         \<and> current_sim_cycle (wait_all incoming cm w) = current_sim_cycle w
         \<and> allocated (wait_all incoming cm w) = allocated w
         \<and> (\<forall>(r, q, b)\<in>set cm. heap (wait_all incoming cm w) b = incoming r)
         \<and> (\<forall>a. a \<notin> set (buffers_of cm) \<longrightarrow> heap (wait_all incoming cm w) a = heap w a)"
proof -
  from assms have "distinct (buffers_of cm)" by (simp add: separate_def)
  then show ?thesis
    by (auto simp: wait_all_def complete_requests_frame complete_requests_other
        complete_requests_buffer)
qed

lemma Sync_execute_returned:
  assumes "separate (comm_map this)"
    and "list_all (known (link_map this)) (received (comm_map this) incoming)"
  shows "\<exists>w'. Sync_execute this incoming w = Returned w'
           \<and> log w' = log w @ concat (map (post_calls (heap w)) (comm_map this))
                 @ [Wait_all (2 * length (comm_map this))]
                 @ concat (map (dispatch_calls (link_map this) (current_sim_cycle w) incoming)
                     (comm_map this))
                 @ [InsertActivity (current_sim_cycle w + period this) (Activity.truncate this)]
           \<and> current_sim_cycle w' = current_sim_cycle w
           \<and> allocated w' = allocated w
           \<and> (\<forall>a. heap w' a
                 = (if a \<in> set (queues_of (comm_map this) @ buffers_of (comm_map this))
                    then [] else heap w a))"
proof -
  define w1 where "w1 = post_requests (comm_map this) w"
  define w2 where "w2 = wait_all incoming (comm_map this) w1"
  note p = post_requests_effect [of "comm_map this" w, folded w1_def]
  note q = wait_all_effect [OF assms(1), of incoming w1, folded w2_def]
  from q have buf: "\<forall>(r, q, b)\<in>set (comm_map this). heap w2 b = incoming r" by blast
  from Sync_execute_ranks_returned [OF assms(1) buf assms(2), of "current_sim_cycle w2"]
  obtain w3 where
    w3: "Sync_execute_ranks (link_map this) (current_sim_cycle w2) (comm_map this) w2
          = Returned w3"
      "log w3 = log w2 @ concat (map (dispatch_calls (link_map this) (current_sim_cycle w2)
                 incoming) (comm_map this))"
      "current_sim_cycle w3 = current_sim_cycle w2"
      "allocated w3 = allocated w2"
      "\<forall>a. heap w3 a = (if a \<in> set (queues_of (comm_map this) @ buffers_of (comm_map this))
                          then [] else heap w2 a)"
    by blast
  let ?w' = "emit [InsertActivity (current_sim_cycle w3 + period this) (Activity.truncate this)] w3"
  have ex: "Sync_execute this incoming w = Returned ?w'"
    using w3(1) by (simp add: Sync_execute_def w1_def [symmetric] w2_def [symmetric] Let_def)
  have cyc: "current_sim_cycle w2 = current_sim_cycle w" using p q by simp
  have al: "allocated w2 = allocated w" using p q by simp
  have hp: "\<forall>a. a \<notin> set (buffers_of (comm_map this)) \<longrightarrow> heap w2 a = heap w a"
    using p q by simp
  have "log ?w' = log w @ concat (map (post_calls (heap w)) (comm_map this))
                 @ [Wait_all (2 * length (comm_map this))]
                 @ concat (map (dispatch_calls (link_map this) (current_sim_cycle w) incoming)
                     (comm_map this))
                 @ [InsertActivity (current_sim_cycle w + period this) (Activity.truncate this)]"
    using w3(2,3) p q cyc by simp
  moreover have "current_sim_cycle ?w' = current_sim_cycle w" using w3(3) cyc by simp
  moreover have "allocated ?w' = allocated w" using w3(4) al by simp
  moreover have "\<forall>a. heap ?w' a
                 = (if a \<in> set (queues_of (comm_map this) @ buffers_of (comm_map this))
                    then [] else heap w a)"
    using w3(5) hp by auto
  ultimately show ?thesis using ex by blast
qed

lemma steps_of_post_calls: "set (steps_of (concat (map (post_calls h) cm))) \<subseteq> {1}"
  by (induction cm) (auto simp: steps_of_def post_calls_def step_of_def)

lemma Sync_execute_aborted:
  assumes "separate (comm_map this)"
    and "\<not> list_all (known (link_map this)) (received (comm_map this) incoming)"
  shows "\<exists>w' cs. Sync_execute this incoming w = Aborted w'
           \<and> log w' = log w @ cs @ link_not_found
           \<and> sends_of cs = map (\<lambda>ev. (link_of (link_map this) ev,
                                       delivery_time ev - current_sim_cycle w, ev))
                              (takeWhile (known (link_map this))
                                 (received (comm_map this) incoming))
           \<and> set (steps_of cs) \<subseteq> {1, 2, 3, 4}"
proof -
  define w1 where "w1 = post_requests (comm_map this) w"
  define w2 where "w2 = wait_all incoming (comm_map this) w1"
  note p = post_requests_effect [of "comm_map this" w, folded w1_def]
  note q = wait_all_effect [OF assms(1), of incoming w1, folded w2_def]
  from q have buf: "\<forall>(r, q, b)\<in>set (comm_map this). heap w2 b = incoming r" by blast
  have cyc: "current_sim_cycle w2 = current_sim_cycle w" using p q by simp
  from Sync_execute_ranks_aborted [OF assms(1) buf assms(2), of "current_sim_cycle w2"]
  obtain w3 cs where
    w3: "Sync_execute_ranks (link_map this) (current_sim_cycle w2) (comm_map this) w2
          = Aborted w3"
      "log w3 = log w2 @ cs @ link_not_found"
      "sends_of cs = map (\<lambda>ev. (link_of (link_map this) ev,
                                       delivery_time ev - current_sim_cycle w, ev))
                              (takeWhile (known (link_map this))
                                 (received (comm_map this) incoming))"
      "set (steps_of cs) \<subseteq> {3, 4}"
    unfolding cyc by blast
  have ex: "Sync_execute this incoming w = Aborted w3"
    using w3(1) by (simp add: Sync_execute_def w1_def [symmetric] w2_def [symmetric] Let_def)
  let ?pre = "concat (map (post_calls (heap w)) (comm_map this))
                @ [Wait_all (2 * length (comm_map this))]"
  have s0: "sends_of (concat (map (post_calls (heap w)) cm)) = []" for cm
    by (induction cm) (auto simp: sends_of_def post_calls_def)
  have "log w3 = log w @ (?pre @ cs) @ link_not_found" using w3(2) p q by simp
  moreover have "sends_of (?pre @ cs) = map (\<lambda>ev. (link_of (link_map this) ev,
                                       delivery_time ev - current_sim_cycle w, ev))
                              (takeWhile (known (link_map this))
                                 (received (comm_map this) incoming))"
    using w3(3) s0 [of "comm_map this"] by (simp add: sends_of_append) (simp add: sends_of_def)
  moreover have "set (steps_of (?pre @ cs)) \<subseteq> {1, 2, 3, 4}"
    using w3(4) steps_of_post_calls [of "heap w" "comm_map this"]
    by (auto simp: steps_of_append) (auto simp: steps_of_def step_of_def)
  ultimately show ?thesis using ex by blast
qed

section \<open>The calls of one Sync::execute\<close>

lemma calls_since_Returned: "log w' = log w @ cs \<Longrightarrow> calls_since w (Returned w') = cs"
  by (simp add: calls_since_def world_of_def)

lemma calls_since_Aborted: "log w' = log w @ cs \<Longrightarrow> calls_since w (Aborted w') = cs"
  by (simp add: calls_since_def world_of_def)

lemma sends_of_link_not_found: "sends_of (cs @ link_not_found) = sends_of cs"
  by (simp add: sends_of_def link_not_found_def)


lemma sends_of_post_calls: "sends_of (concat (map (post_calls h) cm)) = []"
  by (induction cm) (auto simp: sends_of_def post_calls_def)

lemma sends_of_execute_calls:
  "sends_of (concat (map (post_calls h) cm) @ [Wait_all n]
       @ concat (map (dispatch_calls links cyc incoming) cm) @ [InsertActivity t a])
   = map (\<lambda>ev. (link_of links ev, delivery_time ev - cyc, ev)) (received cm incoming)"
  using sends_of_dispatch_calls [of links cyc incoming cm] sends_of_post_calls [of h cm]
  by (simp add: sends_of_append) (simp add: sends_of_def)

lemma Sync_execute_sends:
  assumes "separate (comm_map this)"
  shows "sends_of (calls_since w (Sync_execute this incoming w))
         = map (\<lambda>ev. (link_of (link_map this) ev, delivery_time ev - current_sim_cycle w, ev))
             (takeWhile (known (link_map this)) (received (comm_map this) incoming))"
proof (cases "list_all (known (link_map this)) (received (comm_map this) incoming)")
  case True
  from Sync_execute_returned [OF assms True, of w]
  obtain w' where w': "Sync_execute this incoming w = Returned w'"
    "log w' = log w @ (concat (map (post_calls (heap w)) (comm_map this))
                 @ [Wait_all (2 * length (comm_map this))]
                 @ concat (map (dispatch_calls (link_map this) (current_sim_cycle w) incoming)
                     (comm_map this))
                 @ [InsertActivity (current_sim_cycle w + period this) (Activity.truncate this)])"
    by auto
  from True have "takeWhile (known (link_map this)) (received (comm_map this) incoming)
                  = received (comm_map this) incoming"
    by (simp add: takeWhile_eq_all_conv list_all_iff)
  then show ?thesis
    unfolding w'(1) calls_since_Returned [OF w'(2)] by (simp only: sends_of_execute_calls)
next
  case False
  from Sync_execute_aborted [OF assms False, of w]
  obtain w' cs where w': "Sync_execute this incoming w = Aborted w'"
    "log w' = log w @ cs @ link_not_found"
    "sends_of cs = map (\<lambda>ev. (link_of (link_map this) ev,
                                       delivery_time ev - current_sim_cycle w, ev))
                              (takeWhile (known (link_map this))
                                 (received (comm_map this) incoming))"
    by auto
  show ?thesis
    unfolding w'(1) calls_since_Aborted [OF w'(2)]
    by (simp only: sends_of_link_not_found w'(3))
qed

lemma delay_unat:
  fixes t c :: SimTime_t
  shows "unat (t - c) = (if c \<le> t then unat t - unat c else 2 ^ 64 - (unat c - unat t))"
proof (cases "c \<le> t")
  case True
  then show ?thesis by (simp add: unat_sub)
next
  case False
  then have "unat t < unat c" by (simp add: word_le_nat_alt)
  moreover have "unat c < 2 ^ 64" using unsigned_less [of c] by simp
  moreover have "unat (t - c) = unat t + 2 ^ 64 - unat c"
    using False by (simp add: unat_sub_if_size word_size word_le_nat_alt)
  ultimately show ?thesis using False by simp
qed

lemmas barrier_defs = Sync_execute_def barrier_sync_def barrier_world_def peer_sends_def
  wait_all_def emit_def Activity.truncate_def Let_def calls_since_def world_of_def
  link_not_found_def

lemma barrier_sync_separate: "separate (comm_map barrier_sync)"
  by (simp add: separate_def queues_of_def buffers_of_def barrier_sync_def)

section \<open>The loops of Sync::exchangeLinkInitData\<close>

lemma Sync_exchange_items_effect:
  "Sync_exchange_items links evs w =
     (if list_all (known links) evs
      then Returned (emit (map (init_send_call links) evs) w)
      else Aborted (emit (map (init_send_call links) (takeWhile (known links) evs)
                            @ link_not_found) w))"
proof (induction evs arbitrary: w)
  case Nil
  then show ?case by (simp add: emit_Nil)
next
  case (Cons ev evs)
  show ?case
  proof (cases "map_of links (link_id ev)")
    case None
    then show ?thesis by (simp add: known_def)
  next
    case (Some l)
    then have "known links ev" "init_send_call links ev = Link_sendInitData l (ev\<lparr>link_id := - 1\<rparr>)"
      by (simp_all add: known_def init_send_call_def link_of_def)
    with Some Cons.IH show ?thesis by (simp add: emit_emit)
  qed
qed

lemma Sync_exchange_ranks_returned:
  assumes "separate cm"
    and "\<forall>(r, q, b)\<in>set cm. heap w b = incoming r"
    and "list_all (known links) (received cm incoming)"
  shows "\<exists>w'. Sync_exchange_ranks links cm w = Returned w'
           \<and> log w' = log w @ concat (map (init_dispatch_calls links incoming) cm)
           \<and> current_sim_cycle w' = current_sim_cycle w
           \<and> allocated w' = allocated w
           \<and> (\<forall>a. heap w' a = (if a \<in> set (queues_of cm @ buffers_of cm) then [] else heap w a))"
  using assms
proof (induction cm arbitrary: w)
  case Nil
  then show ?case by (simp add: queues_of_def buffers_of_def)
next
  case (Cons e cm)
  obtain r q b where e: "e = (r, q, b)" by (cases e)
  from Cons.prems(1) e have sep: "separate cm" "q \<noteq> b" "q \<notin> set (buffers_of cm)"
    "b \<notin> set (buffers_of cm)"
    by (auto dest: separate_Cons)
  from Cons.prems(2) e have buf: "heap w b = incoming r" by simp
  from Cons.prems(3) e have kn: "list_all (known links) (incoming r)"
    "list_all (known links) (received cm incoming)"
    by (simp_all add: received_Cons)
  define w1 where "w1 = emit [SyncQueue_clear q] (w\<lparr>heap := (heap w)(q := [])\<rparr>)"
  define w2 where "w2 = emit (map (init_send_call links) (incoming r)) w1"
  define w3 where "w3 = emit [Vector_clear b] (w2\<lparr>heap := (heap w2)(b := [])\<rparr>)"
  have h1: "heap w1 b = incoming r" using sep(2) buf by (simp add: w1_def)
  have ev: "Sync_exchange_items links (heap w1 b) w1 = Returned w2"
    using kn(1) by (simp add: Sync_exchange_items_effect h1 w2_def)
  have step: "Sync_exchange_ranks links (e # cm) w = Sync_exchange_ranks links cm w3"
    using ev by (simp add: e w1_def [symmetric] w3_def Let_def)
  have h3: "\<forall>a. heap w3 a = (if a = q \<or> a = b then [] else heap w a)"
    by (simp add: w3_def w2_def w1_def)
  have "\<forall>(r', q', b')\<in>set cm. heap w3 b' = incoming r'"
  proof (clarify)
    fix r' q' b' assume m: "(r', q', b') \<in> set cm"
    then have "b' \<in> set (buffers_of cm)" by (rule buffers_of_mem)
    with sep have "b' \<noteq> q" "b' \<noteq> b" by auto
    moreover from m Cons.prems(2) have "heap w b' = incoming r'" by auto
    ultimately show "heap w3 b' = incoming r'" using h3 by simp
  qed
  from Cons.IH [OF sep(1) this kn(2)] obtain w' where
    w': "Sync_exchange_ranks links cm w3 = Returned w'"
      "log w' = log w3 @ concat (map (init_dispatch_calls links incoming) cm)"
      "current_sim_cycle w' = current_sim_cycle w3"
      "allocated w' = allocated w3"
      "\<forall>a. heap w' a = (if a \<in> set (queues_of cm @ buffers_of cm) then [] else heap w3 a)"
    by blast
  have l3: "log w3 = log w @ init_dispatch_calls links incoming e"
    by (simp add: w3_def w2_def w1_def init_dispatch_calls_def e)
  have f3: "current_sim_cycle w3 = current_sim_cycle w" "allocated w3 = allocated w"
    by (simp_all add: w3_def w2_def w1_def)
  have "\<forall>a. heap w' a = (if a \<in> set (queues_of (e # cm) @ buffers_of (e # cm)) then []
                           else heap w a)"
    using w'(5) h3 by (auto simp: e queues_of_def buffers_of_def)
  with step w' l3 f3 show ?case by simp
qed

lemma init_sends_of_append: "init_sends_of (as @ bs) = init_sends_of as @ init_sends_of bs"
  by (simp add: init_sends_of_def)

lemma init_sends_of_send_calls:
  "init_sends_of (map (init_send_call links) evs)
   = map (\<lambda>lid. (link_of links lid, lid\<lparr>link_id := - 1\<rparr>)) evs"
  by (induction evs) (simp_all add: init_sends_of_def init_send_call_def)

lemma init_sends_of_dispatch_calls:
  "init_sends_of (concat (map (init_dispatch_calls links incoming) cm))
   = map (\<lambda>lid. (link_of links lid, lid\<lparr>link_id := - 1\<rparr>)) (received cm incoming)"
proof (induction cm)
  case Nil
  then show ?case by (simp add: init_sends_of_def received_def)
next
  case (Cons e cm)
  obtain r q b where e: "e = (r, q, b)" by (cases e)
  have "init_sends_of (init_dispatch_calls links incoming e)
        = map (\<lambda>lid. (link_of links lid, lid\<lparr>link_id := - 1\<rparr>)) (incoming r)"
    using init_sends_of_send_calls [of links "incoming r"]
    by (simp add: init_dispatch_calls_def e init_sends_of_def)
  with Cons show ?case by (simp add: init_sends_of_append received_Cons e)
qed

lemma Sync_exchange_ranks_aborted:
  assumes "separate cm"
    and "\<forall>(r, q, b)\<in>set cm. heap w b = incoming r"
    and "\<not> list_all (known links) (received cm incoming)"
  shows "\<exists>w' cs. Sync_exchange_ranks links cm w = Aborted w'
           \<and> log w' = log w @ cs @ link_not_found
           \<and> init_sends_of cs = map (\<lambda>lid. (link_of links lid, lid\<lparr>link_id := - 1\<rparr>))
                              (takeWhile (known links) (received cm incoming))"
  using assms
proof (induction cm arbitrary: w)
  case Nil
  then show ?case by (simp add: received_def)
next
  case (Cons e cm)
  obtain r q b where e: "e = (r, q, b)" by (cases e)
  from Cons.prems(1) e have sep: "separate cm" "q \<noteq> b" "q \<notin> set (buffers_of cm)"
    "b \<notin> set (buffers_of cm)"
    by (auto dest: separate_Cons)
  from Cons.prems(2) e have buf: "heap w b = incoming r" by simp
  define w1 where "w1 = emit [SyncQueue_clear q] (w\<lparr>heap := (heap w)(q := [])\<rparr>)"
  have h1: "heap w1 b = incoming r" using sep(2) buf by (simp add: w1_def)
  show ?case
  proof (cases "list_all (known links) (incoming r)")
    case True
    with Cons.prems(3) e have rest: "\<not> list_all (known links) (received cm incoming)"
      by (simp add: received_Cons)
    define w2 where "w2 = emit (map (init_send_call links) (incoming r)) w1"
    define w3 where "w3 = emit [Vector_clear b] (w2\<lparr>heap := (heap w2)(b := [])\<rparr>)"
    have ev: "Sync_exchange_items links (heap w1 b) w1 = Returned w2"
      using True by (simp add: Sync_exchange_items_effect h1 w2_def)
    have step: "Sync_exchange_ranks links (e # cm) w = Sync_exchange_ranks links cm w3"
      using ev by (simp add: e w1_def [symmetric] w3_def Let_def)
    have h3: "\<forall>a. heap w3 a = (if a = q \<or> a = b then [] else heap w a)"
      by (simp add: w3_def w2_def w1_def)
    have "\<forall>(r', q', b')\<in>set cm. heap w3 b' = incoming r'"
    proof (clarify)
      fix r' q' b' assume m: "(r', q', b') \<in> set cm"
      then have "b' \<in> set (buffers_of cm)" by (rule buffers_of_mem)
      with sep have "b' \<noteq> q" "b' \<noteq> b" by auto
      moreover from m Cons.prems(2) have "heap w b' = incoming r'" by auto
      ultimately show "heap w3 b' = incoming r'" using h3 by simp
    qed
    from Cons.IH [OF sep(1) this rest] obtain w' cs where
      w': "Sync_exchange_ranks links cm w3 = Aborted w'"
        "log w' = log w3 @ cs @ link_not_found"
        "init_sends_of cs = map (\<lambda>lid. (link_of links lid, lid\<lparr>link_id := - 1\<rparr>))
                              (takeWhile (known links) (received cm incoming))"
      by blast
    have l3: "log w3 = log w @ init_dispatch_calls links incoming e"
      by (simp add: w3_def w2_def w1_def init_dispatch_calls_def e)
    have tw: "takeWhile (known links) (received (e # cm) incoming)
              = incoming r @ takeWhile (known links) (received cm incoming)"
      using True by (simp add: received_Cons e list_all_iff)
    have s1: "init_sends_of (init_dispatch_calls links incoming e)
              = map (\<lambda>lid. (link_of links lid, lid\<lparr>link_id := - 1\<rparr>)) (incoming r)"
      using init_sends_of_dispatch_calls [of links incoming "[e]"]
      by (simp add: received_def e)
    let ?cs = "init_dispatch_calls links incoming e @ cs"
    have "log w' = log w @ ?cs @ link_not_found" using w'(2) l3 by simp
    moreover have "init_sends_of ?cs = map (\<lambda>lid. (link_of links lid, lid\<lparr>link_id := - 1\<rparr>))
                              (takeWhile (known links) (received (e # cm) incoming))"
      using w'(3) s1 tw by (simp add: init_sends_of_append)
    ultimately show ?thesis using step w'(1) by metis
  next
    case False
    let ?pre = "map (init_send_call links) (takeWhile (known links) (incoming r))"
    let ?w' = "emit (?pre @ link_not_found) w1"
    let ?cs = "SyncQueue_clear q # ?pre"
    have ev: "Sync_exchange_items links (heap w1 b) w1 = Aborted ?w'"
      using False by (simp add: Sync_exchange_items_effect h1)
    have step: "Sync_exchange_ranks links (e # cm) w = Aborted ?w'"
      using ev by (simp add: e w1_def [symmetric] Let_def)
    from False obtain x where "x \<in> set (incoming r)" "\<not> known links x"
      by (auto simp: list_all_iff)
    then have tw: "takeWhile (known links) (received (e # cm) incoming)
              = takeWhile (known links) (incoming r)"
      by (simp add: received_Cons e)
    have "log ?w' = log w @ ?cs @ link_not_found" by (simp add: w1_def)
    moreover have "init_sends_of ?cs = map (\<lambda>lid. (link_of links lid, lid\<lparr>link_id := - 1\<rparr>))
                              (takeWhile (known links) (received (e # cm) incoming))"
      using init_sends_of_send_calls [of links "takeWhile (known links) (incoming r)"]
      by (simp add: tw init_sends_of_def)
    ultimately show ?thesis using step by metis
  qed
qed

lemma move_init_data_effect:
  "log (move_init_data move links w) = log w @ map (\<lambda>(i, link). Link_moveInitDataToRecvQueue link) links
   \<and> allocated (move_init_data move links w) = allocated w
   \<and> current_sim_cycle (move_init_data move links w) = current_sim_cycle w"
  by (induction links arbitrary: w) auto

lemma Sync_exchangeLinkInitData_returned:
  assumes "separate (comm_map this)"
    and "list_all (known (link_map this)) (received (comm_map this) incoming)"
  shows "\<exists>w' cs. Sync_exchangeLinkInitData move this incoming w = Returned w'
           \<and> log w' = log w @ cs
           \<and> init_sends_of cs
               = map (\<lambda>lid. (link_of (link_map this) lid, lid\<lparr>link_id := - 1\<rparr>))
                   (received (comm_map this) incoming)"
proof -
  define w0 where "w0 = move_init_data move (link_map this) w"
  define w1 where "w1 = post_requests (comm_map this) w0"
  define w2 where "w2 = wait_all incoming (comm_map this) w1"
  note m = move_init_data_effect [of move "link_map this" w, folded w0_def]
  note p = post_requests_effect [of "comm_map this" w0, folded w1_def]
  note q = wait_all_effect [OF assms(1), of incoming w1, folded w2_def]
  from q have buf: "\<forall>(r, q, b)\<in>set (comm_map this). heap w2 b = incoming r" by blast
  from Sync_exchange_ranks_returned [OF assms(1) buf assms(2)]
  obtain w3 where
    w3: "Sync_exchange_ranks (link_map this) (comm_map this) w2 = Returned w3"
      "log w3 = log w2 @ concat (map (init_dispatch_calls (link_map this) incoming)
                 (comm_map this))"
    by blast
  have ex: "Sync_exchangeLinkInitData move this incoming w = Returned w3"
    using w3(1)
    by (simp add: Sync_exchangeLinkInitData_def w0_def [symmetric] w1_def [symmetric]
        w2_def [symmetric] Let_def)
  let ?pre = "map (\<lambda>(i, link). Link_moveInitDataToRecvQueue link) (link_map this)
              @ concat (map (post_calls (heap w0)) (comm_map this))
              @ [Wait_all (2 * length (comm_map this))]"
  let ?cs = "?pre @ concat (map (init_dispatch_calls (link_map this) incoming) (comm_map this))"
  have s1: "init_sends_of (map (\<lambda>(i, link). Link_moveInitDataToRecvQueue link) links) = []"
    for links :: "(LinkId_t \<times> Link) list"
    by (induction links) (auto simp: init_sends_of_def)
  have s2: "init_sends_of (concat (map (post_calls h) cm)) = []" for h cm
    by (induction cm) (auto simp: init_sends_of_def post_calls_def)
  have s3: "init_sends_of (Wait_all n # xs) = init_sends_of xs" for n xs
    by (simp add: init_sends_of_def)
  have "log w3 = log w @ ?cs" using w3(2) m p q by simp
  moreover have "init_sends_of ?cs
               = map (\<lambda>lid. (link_of (link_map this) lid, lid\<lparr>link_id := - 1\<rparr>))
                   (received (comm_map this) incoming)"
    by (simp add: init_sends_of_append s1 s2 s3 init_sends_of_dispatch_calls)
  ultimately show ?thesis using ex by blast
qed

lemma Sync_exchangeLinkInitData_aborted:
  assumes "separate (comm_map this)"
    and "\<not> list_all (known (link_map this)) (received (comm_map this) incoming)"
  shows "\<exists>w' cs. Sync_exchangeLinkInitData move this incoming w = Aborted w'
           \<and> log w' = log w @ cs @ link_not_found
           \<and> init_sends_of cs
               = map (\<lambda>lid. (link_of (link_map this) lid, lid\<lparr>link_id := - 1\<rparr>))
                   (takeWhile (known (link_map this)) (received (comm_map this) incoming))"
proof -
  define w0 where "w0 = move_init_data move (link_map this) w"
  define w1 where "w1 = post_requests (comm_map this) w0"
  define w2 where "w2 = wait_all incoming (comm_map this) w1"
  note m = move_init_data_effect [of move "link_map this" w, folded w0_def]
  note p = post_requests_effect [of "comm_map this" w0, folded w1_def]
  note q = wait_all_effect [OF assms(1), of incoming w1, folded w2_def]
  from q have buf: "\<forall>(r, q, b)\<in>set (comm_map this). heap w2 b = incoming r" by blast
  from Sync_exchange_ranks_aborted [OF assms(1) buf assms(2)]
  obtain w3 cs where
    w3: "Sync_exchange_ranks (link_map this) (comm_map this) w2 = Aborted w3"
      "log w3 = log w2 @ cs @ link_not_found"
      "init_sends_of cs
         = map (\<lambda>lid. (link_of (link_map this) lid, lid\<lparr>link_id := - 1\<rparr>))
             (takeWhile (known (link_map this)) (received (comm_map this) incoming))"
    by blast
  have ex: "Sync_exchangeLinkInitData move this incoming w = Aborted w3"
    using w3(1)
    by (simp add: Sync_exchangeLinkInitData_def w0_def [symmetric] w1_def [symmetric]
        w2_def [symmetric] Let_def)
  let ?pre = "map (\<lambda>(i, link). Link_moveInitDataToRecvQueue link) (link_map this)
              @ concat (map (post_calls (heap w0)) (comm_map this))
              @ [Wait_all (2 * length (comm_map this))]"
  have s1: "init_sends_of (map (\<lambda>(i, link). Link_moveInitDataToRecvQueue link) links) = []"
    for links :: "(LinkId_t \<times> Link) list"
    by (induction links) (auto simp: init_sends_of_def)
  have s2: "init_sends_of (concat (map (post_calls h) cm)) = []" for h cm
    by (induction cm) (auto simp: init_sends_of_def post_calls_def)
  have s3: "init_sends_of (Wait_all n # xs) = init_sends_of xs" for n xs
    by (simp add: init_sends_of_def)
  have "log w3 = log w @ (?pre @ cs) @ link_not_found" using w3(2) m p q by simp
  moreover have "init_sends_of (?pre @ cs)
               = map (\<lambda>lid. (link_of (link_map this) lid, lid\<lparr>link_id := - 1\<rparr>))
                   (takeWhile (known (link_map this)) (received (comm_map this) incoming))"
    using w3(3) by (simp add: init_sends_of_append s1 s2 s3)
  ultimately show ?thesis using ex by blast
qed

lemma init_sends_of_link_not_found: "init_sends_of (cs @ link_not_found) = init_sends_of cs"
  by (simp add: init_sends_of_def link_not_found_def)

section \<open>Registering links\<close>

lemma map_of_map_assign: "map_of (map_assign k v m) = (map_of m)(k \<mapsto> v)"
  by (induction m) (auto simp: fun_eq_iff)

lemma mset_map_assign_new:
  "map_of m k = None \<Longrightarrow> mset (map_assign k v m) = add_mset (k, v) (mset m)"
  by (induction m) (auto split: if_splits)

lemma Sync_registerLink_new:
  assumes "map_of (comm_map this) rank = None"
  shows "Sync_registerLink rank lid link this w
         = (allocated w,
            this\<lparr>comm_map := map_assign rank (allocated w, Suc (allocated w)) (comm_map this),
                 link_map := map_assign lid link (link_map this)\<rparr>,
            w\<lparr>heap := (heap w)(allocated w := [], Suc (allocated w) := []),
              allocated := Suc (Suc (allocated w))\<rparr>)"
  using assms by (simp add: Sync_registerLink_def new_object_def)

lemma Sync_registerLink_old:
  assumes "map_of (comm_map this) rank = Some (q, b)"
  shows "Sync_registerLink rank lid link this w
         = (q, this\<lparr>link_map := map_assign lid link (link_map this)\<rparr>, w)"
  using assms by (simp add: Sync_registerLink_def)

lemma addresses_map_assign_new:
  assumes "map_of cm rank = None"
  shows "mset (queues_of (map_assign rank (q, b) cm) @ buffers_of (map_assign rank (q, b) cm))
         = mset (q # b # queues_of cm @ buffers_of cm)"
proof -
  have "mset (queues_of (map_assign rank (q, b) cm))
          = image_mset (\<lambda>(rank, queue, buffer). queue) (mset (map_assign rank (q, b) cm))"
    by (simp add: queues_of_def)
  moreover have "mset (buffers_of (map_assign rank (q, b) cm))
          = image_mset (\<lambda>(rank, queue, buffer). buffer) (mset (map_assign rank (q, b) cm))"
    by (simp add: buffers_of_def)
  ultimately show ?thesis
    using mset_map_assign_new [OF assms, of "(q, b)"]
    by (simp add: queues_of_def buffers_of_def)
qed

lemma pointers_sound_new:
  assumes "pointers_sound this w" "map_of (comm_map this) rank = None"
  shows "pointers_sound
           (this\<lparr>comm_map := map_assign rank (allocated w, Suc (allocated w)) (comm_map this),
                 link_map := links\<rparr>)
           (w\<lparr>heap := h, allocated := Suc (Suc (allocated w))\<rparr>)"
proof -
  let ?cm = "comm_map this"
  let ?cm' = "map_assign rank (allocated w, Suc (allocated w)) ?cm"
  let ?old = "queues_of ?cm @ buffers_of ?cm"
  let ?new = "queues_of ?cm' @ buffers_of ?cm'"
  from assms(1) have d: "distinct ?old" and lt: "\<forall>a\<in>set ?old. a < allocated w"
    by (simp_all add: pointers_sound_def separate_def list_all_iff)
  have m: "mset ?new = mset (allocated w # Suc (allocated w) # ?old)"
    by (rule addresses_map_assign_new [OF assms(2)])
  have n1: "allocated w \<notin> set ?old"
  proof
    assume "allocated w \<in> set ?old"
    with lt have "allocated w < allocated w" by blast
    then show False by simp
  qed
  have n2: "Suc (allocated w) \<notin> set ?old"
  proof
    assume "Suc (allocated w) \<in> set ?old"
    with lt have "Suc (allocated w) < allocated w" by blast
    then show False by simp
  qed
  from n1 n2 d have "distinct (allocated w # Suc (allocated w) # ?old)"
    by simp
  with m have "distinct ?new" by (metis mset_eq_imp_distinct_iff)
  moreover from m have se: "set ?new = set (allocated w # Suc (allocated w) # ?old)"
    by (rule mset_eq_setD)
  have "\<forall>a\<in>set ?new. a < Suc (Suc (allocated w))"
  proof
    fix a assume "a \<in> set ?new"
    with se consider "a = allocated w" | "a = Suc (allocated w)" | "a \<in> set ?old" by auto
    then show "a < Suc (Suc (allocated w))"
    proof cases
      case 3
      with lt have "a < allocated w" by blast
      then show ?thesis by simp
    qed simp_all
  qed
  ultimately show ?thesis
    by (simp add: pointers_sound_def separate_def list_all_iff)
qed

lemma Sync_registerLink_step:
  assumes "pointers_sound this w"
    and "Sync_registerLink rank lid link this w = (q, this1, w1)"
  shows "pointers_sound this1 w1"
    and "queue_for this1 = (queue_for this)(rank \<mapsto> q)"
    and "queue_for this rank = None \<longrightarrow> allocated w1 = allocated w + 2"
    and "queue_for this rank \<noteq> None \<longrightarrow> queue_for this rank = Some q \<and> allocated w1 = allocated w"
proof -
  show "pointers_sound this1 w1"
  proof (cases "map_of (comm_map this) rank")
    case None
    from assms(2) have e:
      "this1 = this\<lparr>comm_map := map_assign rank (allocated w, Suc (allocated w)) (comm_map this),
                 link_map := map_assign lid link (link_map this)\<rparr>"
      "w1 = w\<lparr>heap := (heap w)(allocated w := [], Suc (allocated w) := []),
                allocated := Suc (Suc (allocated w))\<rparr>"
      unfolding Sync_registerLink_new [OF None] by auto
    show ?thesis unfolding e by (rule pointers_sound_new [OF assms(1) None])
  next
    case (Some e)
    obtain q' b' where "e = (q', b')" by (cases e)
    with Some assms show ?thesis
      by (auto simp: Sync_registerLink_old pointers_sound_def)
  qed
  show "queue_for this1 = (queue_for this)(rank \<mapsto> q)"
    using assms(2)
    by (cases "map_of (comm_map this) rank")
       (auto simp: Sync_registerLink_new Sync_registerLink_old queue_for_def map_of_map_assign
          fun_eq_iff)
  show "queue_for this rank = None \<longrightarrow> allocated w1 = allocated w + 2"
    using assms(2)
    by (cases "map_of (comm_map this) rank")
       (auto simp: Sync_registerLink_new queue_for_def)
  show "queue_for this rank \<noteq> None \<longrightarrow> queue_for this rank = Some q \<and> allocated w1 = allocated w"
    using assms(2)
    by (cases "map_of (comm_map this) rank")
       (auto simp: Sync_registerLink_old queue_for_def)
qed

lemma queue_for_inj:
  assumes "pointers_sound this w" "queue_for this r = Some q" "queue_for this r' = Some q"
  shows "r = r'"
proof -
  from assms(2,3) obtain b b' where
    "map_of (comm_map this) r = Some (q, b)" "map_of (comm_map this) r' = Some (q, b')"
    by (auto simp: queue_for_def)
  then have m: "(r, q, b) \<in> set (comm_map this)" "(r', q, b') \<in> set (comm_map this)"
    by (auto dest: map_of_SomeD)
  from assms(1) have "distinct (map (\<lambda>(rank, queue, buffer). queue) (comm_map this))"
    by (simp add: pointers_sound_def separate_def queues_of_def)
  then have "inj_on (\<lambda>(rank, queue, buffer). queue) (set (comm_map this))"
    by (simp add: distinct_map)
  from inj_onD [OF this _ m] show ?thesis by simp
qed

lemma Sync_registerLinks_effect:
  assumes "pointers_sound this w"
    and "Sync_registerLinks calls this w = (qs, this', w')"
  shows "pointers_sound this' w' \<and> length qs = length calls
         \<and> (\<forall>r q. queue_for this r = Some q \<longrightarrow> queue_for this' r = Some q)
         \<and> (\<forall>i<length calls. queue_for this' (fst (calls ! i)) = Some (qs ! i))
         \<and> allocated w' = allocated w + 2 * card (fst ` set calls - dom (queue_for this))"
  using assms
proof (induction calls arbitrary: this w qs this' w')
  case Nil
  then show ?case by simp
next
  case (Cons c calls)
  obtain r lid l where c: "c = (r, lid, l)" by (cases c)
  obtain q this1 w1 where s1: "Sync_registerLink r lid l this w = (q, this1, w1)"
    by (cases "Sync_registerLink r lid l this w")
  obtain qs1 where s2: "Sync_registerLinks calls this1 w1 = (qs1, this', w')" and qs: "qs = q # qs1"
    using Cons.prems(2) c s1 by (auto split: prod.splits)
  note st = Sync_registerLink_step [OF Cons.prems(1) s1]
  note ih = Cons.IH [OF st(1) s2]
  have mono: "\<forall>r0 q0. queue_for this r0 = Some q0 \<longrightarrow> queue_for this1 r0 = Some q0"
    using st(2,4) by auto
  have here: "queue_for this1 r = Some q" using st(2) by simp
  have idx: "\<forall>i<length (c # calls). queue_for this' (fst ((c # calls) ! i)) = Some (qs ! i)"
  proof (intro allI impI)
    fix i assume "i < length (c # calls)"
    then show "queue_for this' (fst ((c # calls) ! i)) = Some (qs ! i)"
      using ih here by (cases i) (auto simp: c qs)
  qed
  have dom1: "dom (queue_for this1) = insert r (dom (queue_for this))"
    using st(2) by auto
  have card: "allocated w' = allocated w + 2 * card (fst ` set (c # calls) - dom (queue_for this))"
  proof (cases "queue_for this r")
    case None
    then have "r \<notin> dom (queue_for this)" by auto
    then have "fst ` set (c # calls) - dom (queue_for this)
          = insert r (fst ` set calls - insert r (dom (queue_for this)))"
      by (auto simp: c)
    moreover have "finite (fst ` set calls - insert r (dom (queue_for this)))" by simp
    moreover have "r \<notin> fst ` set calls - insert r (dom (queue_for this))" by simp
    ultimately have "card (fst ` set (c # calls) - dom (queue_for this))
          = Suc (card (fst ` set calls - dom (queue_for this1)))"
      by (simp add: dom1)
    with ih st(3) None show ?thesis by simp
  next
    case (Some q0)
    then have "r \<in> dom (queue_for this)" by auto
    then have "fst ` set (c # calls) - dom (queue_for this)
          = fst ` set calls - dom (queue_for this1)"
      by (auto simp: c dom1)
    with ih st(4) Some show ?thesis by simp
  qed
  from ih mono idx card show ?case by (auto simp: qs)
qed

lemma registered:
  "Sync_registerLinks three_links (fst (Sync_Sync start_action 4 0 start_world))
      (snd (Sync_Sync start_action 4 0 start_world))
   = ([0, 2, 0], barrier_sync,
      \<lparr>heap = (\<lambda>a. []), allocated = 4, current_sim_cycle = 8,
       log = [InsertActivity 12 \<lparr>delivery_time = 0, priority = 25, sequence = 0\<rparr>]\<rparr>)"
  by (simp add: three_links_def Sync_Sync_def start_action_def start_world_def emit_def
      Sync_registerLink_def new_object_def barrier_sync_def Activity.truncate_def Let_def fun_eq_iff)

section \<open>Properties of the queues\<close>

text \<open>
  C5. On every queue that implements ActivityQueue, \<open>pop\<close> and \<open>front\<close> called on an
  empty queue return the null pointer, leave the queue as it is and do not fail; they
  return the null pointer only then, a queue that holds an Activity gives one. For
  PollingLinkQueue this is the code of \<open>pop\<close> and \<open>front\<close>; TimeVortex and SyncQueue are
  the other two queues of the system, with the member functions that the specification
  gives them.
\<close>

theorem ActivityQueue_null_iff_empty:
  "(fst (PollingLinkQueue_pop q) = None \<longleftrightarrow> PollingLinkQueue_empty q)
   \<and> (PollingLinkQueue_front q = None \<longleftrightarrow> PollingLinkQueue_empty q)
   \<and> (PollingLinkQueue_empty q \<longrightarrow> PollingLinkQueue_pop q = (None, q))
   \<and> (fst (TimeVortex_pop v) = None \<longleftrightarrow> TimeVortex_empty v)
   \<and> (TimeVortex_front v = None \<longleftrightarrow> TimeVortex_empty v)
   \<and> (TimeVortex_empty v \<longrightarrow> TimeVortex_pop v = (None, v))
   \<and> (fst (SyncQueue_pop s) = None \<longleftrightarrow> SyncQueue_empty s)
   \<and> (SyncQueue_front s = None \<longleftrightarrow> SyncQueue_empty s)
   \<and> (SyncQueue_empty s \<longrightarrow> SyncQueue_pop s = (None, s))"
proof -
  have plq: "(fst (PollingLinkQueue_pop q) = None \<longleftrightarrow> PollingLinkQueue_empty q)
   \<and> (PollingLinkQueue_front q = None \<longleftrightarrow> PollingLinkQueue_empty q)
   \<and> (PollingLinkQueue_empty q \<longrightarrow> PollingLinkQueue_pop q = (None, q))"
    by (cases q)
       (simp_all add: PollingLinkQueue_pop_def PollingLinkQueue_front_def
          PollingLinkQueue_empty_def)
  have tv: "(fst (TimeVortex_pop v) = None \<longleftrightarrow> TimeVortex_empty v)
   \<and> (TimeVortex_front v = None \<longleftrightarrow> TimeVortex_empty v)
   \<and> (TimeVortex_empty v \<longrightarrow> TimeVortex_pop v = (None, v))"
    by (cases v) (simp_all add: TimeVortex_pop_def TimeVortex_front_def TimeVortex_empty_def)
  have sq: "(fst (SyncQueue_pop s) = None \<longleftrightarrow> SyncQueue_empty s)
   \<and> (SyncQueue_front s = None \<longleftrightarrow> SyncQueue_empty s)
   \<and> (SyncQueue_empty s \<longrightarrow> SyncQueue_pop s = (None, s))"
    by (cases s) (simp_all add: SyncQueue_pop_def SyncQueue_front_def SyncQueue_empty_def)
  from plq tv sq show ?thesis by blast
qed

theorem ActivityQueue_null_iff_empty_witness:
  "PollingLinkQueue_empty (PollingLinkQueue_new :: unit PollingLinkQueue)
   \<and> PollingLinkQueue_pop (PollingLinkQueue_new :: unit PollingLinkQueue)
       = (None, PollingLinkQueue_new)
   \<and> PollingLinkQueue_front (PollingLinkQueue_new :: unit PollingLinkQueue) = None
   \<and> TimeVortex_empty (TimeVortex_new :: unit TimeVortex)
   \<and> TimeVortex_pop (TimeVortex_new :: unit TimeVortex) = (None, TimeVortex_new)
   \<and> TimeVortex_front (TimeVortex_new :: unit TimeVortex) = None
   \<and> SyncQueue_empty (SyncQueue_new :: unit SyncQueue)
   \<and> SyncQueue_pop (SyncQueue_new :: unit SyncQueue) = (None, SyncQueue_new)
   \<and> SyncQueue_front (SyncQueue_new :: unit SyncQueue) = None
   \<and> fst (PollingLinkQueue_pop (PollingLinkQueue_insert poll_a PollingLinkQueue_new))
       = Some poll_a
   \<and> PollingLinkQueue_front (PollingLinkQueue_insert poll_a PollingLinkQueue_new)
       = Some poll_a
   \<and> fst (TimeVortex_pop (TimeVortex_insert tie_a TimeVortex_new)) = Some tie_a
   \<and> TimeVortex_front (TimeVortex_insert tie_a TimeVortex_new) = Some tie_a
   \<and> fst (SyncQueue_pop (SyncQueue_insert tie_a SyncQueue_new)) = Some tie_a
   \<and> SyncQueue_front (SyncQueue_insert tie_a SyncQueue_new) = Some tie_a"
proof -
  note th = ActivityQueue_null_iff_empty
      [where q = "PollingLinkQueue_new :: unit PollingLinkQueue"
         and v = "TimeVortex_new :: unit TimeVortex"
         and s = "SyncQueue_new :: unit SyncQueue"]
  have e: "PollingLinkQueue_empty (PollingLinkQueue_new :: unit PollingLinkQueue)"
    "TimeVortex_empty (TimeVortex_new :: unit TimeVortex)"
    "SyncQueue_empty (SyncQueue_new :: unit SyncQueue)"
    by (simp_all add: PollingLinkQueue_empty_def PollingLinkQueue_new_def
        TimeVortex_empty_def TimeVortex_new_def SyncQueue_empty_def SyncQueue_new_def)
  from th e have p: "PollingLinkQueue_pop (PollingLinkQueue_new :: unit PollingLinkQueue)
       = (None, PollingLinkQueue_new)"
    "PollingLinkQueue_front (PollingLinkQueue_new :: unit PollingLinkQueue) = None"
    "TimeVortex_pop (TimeVortex_new :: unit TimeVortex) = (None, TimeVortex_new)"
    "TimeVortex_front (TimeVortex_new :: unit TimeVortex) = None"
    "SyncQueue_pop (SyncQueue_new :: unit SyncQueue) = (None, SyncQueue_new)"
    "SyncQueue_front (SyncQueue_new :: unit SyncQueue) = None"
    by blast+
  have n: "fst (PollingLinkQueue_pop (PollingLinkQueue_insert poll_a PollingLinkQueue_new))
       = Some poll_a"
    "PollingLinkQueue_front (PollingLinkQueue_insert poll_a PollingLinkQueue_new)
       = Some poll_a"
    "fst (TimeVortex_pop (TimeVortex_insert tie_a TimeVortex_new)) = Some tie_a"
    "TimeVortex_front (TimeVortex_insert tie_a TimeVortex_new) = Some tie_a"
    "fst (SyncQueue_pop (SyncQueue_insert tie_a SyncQueue_new)) = Some tie_a"
    "SyncQueue_front (SyncQueue_insert tie_a SyncQueue_new) = Some tie_a"
    by (simp_all add: PollingLinkQueue_pop_def PollingLinkQueue_front_def
        PollingLinkQueue_insert_def PollingLinkQueue_new_def TimeVortex_pop_def
        TimeVortex_front_def TimeVortex_insert_def TimeVortex_new_def SyncQueue_pop_def
        SyncQueue_front_def SyncQueue_insert_def SyncQueue_new_def)
  from e p n show ?thesis by blast
qed

text \<open>
  C6. A PollingLinkQueue is ordered by delivery time alone. On the queue that any
  sequence of \<open>insert\<close> and \<open>pop\<close> calls leaves, if it is not empty, \<open>pop\<close> removes and
  returns the first element, whose delivery time none in the queue undercuts, whatever
  the priorities; an \<open>insert\<close> puts the new Activity behind every Activity of the same
  delivery time and leaves the others in their order. So the pop order of Activities
  inserted one after the other is a rearrangement of them in non-descending delivery
  time, and at each delivery time it is their insertion order.
\<close>

theorem PollingLinkQueue_pop_order:
  fixes calls :: "'a Activity_scheme queue_call list" and acts :: "'a Activity_scheme list"
  defines "q \<equiv> PollingLinkQueue_run calls PollingLinkQueue_new"
  defines "out \<equiv> PollingLinkQueue_drain (PollingLinkQueue_fill acts)"
  shows "(\<not> PollingLinkQueue_empty q \<longrightarrow>
            (\<exists>a rest. PollingLinkQueue_pop q = (Some a, rest) \<and> q = a # rest
               \<and> (\<forall>b\<in>set q. delivery_time a \<le> delivery_time b)))
         \<and> (\<forall>a t. filter (\<lambda>x. delivery_time x = t) (PollingLinkQueue_insert a q)
               = filter (\<lambda>x. delivery_time x = t) q @ (if delivery_time a = t then [a] else []))
         \<and> mset out = mset acts
         \<and> sorted (map delivery_time out)
         \<and> (\<forall>t. filter (\<lambda>x. delivery_time x = t) out = filter (\<lambda>x. delivery_time x = t) acts)"
proof -
  have srt: "sorted (map delivery_time q)"
    unfolding q_def by (rule PollingLinkQueue_run_sorted) (simp add: PollingLinkQueue_new_def)
  have pop: "\<not> PollingLinkQueue_empty q \<longrightarrow>
            (\<exists>a rest. PollingLinkQueue_pop q = (Some a, rest) \<and> q = a # rest
               \<and> (\<forall>b\<in>set q. delivery_time a \<le> delivery_time b))"
    using srt by (cases q) (auto simp: PollingLinkQueue_empty_def PollingLinkQueue_pop_def)
  have ins: "\<forall>a t. filter (\<lambda>x. delivery_time x = t) (PollingLinkQueue_insert a q)
               = filter (\<lambda>x. delivery_time x = t) q @ (if delivery_time a = t then [a] else [])"
    using srt by (simp add: PollingLinkQueue_insert_same_time)
  have out: "out = PollingLinkQueue_fill acts"
    by (simp only: out_def PollingLinkQueue_drain_eq)
  show ?thesis
    using pop ins
    by (simp only: out PollingLinkQueue_fill_mset PollingLinkQueue_fill_sorted
        PollingLinkQueue_fill_stable simp_thms)
qed


theorem PollingLinkQueue_pop_order_witness:
  "\<not> PollingLinkQueue_empty (PollingLinkQueue_run poll_calls PollingLinkQueue_new)
   \<and> PollingLinkQueue_pop (PollingLinkQueue_run poll_calls PollingLinkQueue_new)
       = (Some poll_a, [poll_c])
   \<and> filter (\<lambda>x. delivery_time x = 7)
        (PollingLinkQueue_insert poll_a (PollingLinkQueue_run poll_calls PollingLinkQueue_new))
       = [poll_a, poll_c, poll_a]
   \<and> PollingLinkQueue_drain (PollingLinkQueue_fill [poll_a, poll_b, poll_c, poll_d])
       = [poll_b, poll_d, poll_a, poll_c]
   \<and> sorted (map delivery_time
        (PollingLinkQueue_drain (PollingLinkQueue_fill [poll_a, poll_b, poll_c, poll_d])))"
proof -
  have run: "PollingLinkQueue_run poll_calls PollingLinkQueue_new = [poll_a, poll_c]"
    by (simp add: poll_calls_def PollingLinkQueue_new_def PollingLinkQueue_insert_def
        PollingLinkQueue_pop_def less_time_def poll_a_def poll_b_def poll_c_def)
  have fill: "PollingLinkQueue_fill [poll_a, poll_b, poll_c, poll_d]
              = [poll_b, poll_d, poll_a, poll_c]"
    by (simp add: PollingLinkQueue_fill_def PollingLinkQueue_new_def
        PollingLinkQueue_insert_def less_time_def poll_a_def poll_b_def poll_c_def poll_d_def)
  have time: "delivery_time poll_a = 7" "delivery_time poll_c = 7"
    by (simp_all add: poll_a_def poll_c_def)
  show ?thesis
    using PollingLinkQueue_pop_order [of poll_calls "[poll_a, poll_b, poll_c, poll_d]"]
    by (simp add: run fill time PollingLinkQueue_empty_def PollingLinkQueue_drain_eq)
qed




section \<open>Properties of Sync::execute\<close>




text \<open>
  C3 (as amended). \<open>execute\<close> makes no check on the delay. It goes through the received
  Activities in the order of \<open>comm_map\<close> and stops at the first whose link id the link map
  does not have; to each Activity before that one, which is every received Activity when
  all link ids are found, it gives \<open>Link::Send\<close> with the delay delivery time minus
  current cycle in 64-bit unsigned arithmetic: the difference when the delivery time is
  not in the past, and \<open>2 ^ 64\<close> minus the lateness when it is. These are all the calls
  of \<open>Send\<close>, in returning and in aborting runs. \<open>execute\<close> aborts exactly when a
  received Activity names a link id that the link map does not have, never for a
  delivery time.
\<close>

theorem Sync_execute_delay_wraps:
  assumes "separate (comm_map this)"
  shows "(has_aborted (Sync_execute this incoming w)
            \<longleftrightarrow> \<not> list_all (known (link_map this)) (received (comm_map this) incoming))
         \<and> sends_of (calls_since w (Sync_execute this incoming w))
             = map (\<lambda>ev. (link_of (link_map this) ev, delivery_time ev - current_sim_cycle w, ev))
                 (takeWhile (known (link_map this)) (received (comm_map this) incoming))
         \<and> (list_all (known (link_map this)) (received (comm_map this) incoming) \<longrightarrow>
              sends_of (calls_since w (Sync_execute this incoming w))
              = map (\<lambda>ev. (link_of (link_map this) ev, delivery_time ev - current_sim_cycle w, ev))
                  (received (comm_map this) incoming))
         \<and> (\<forall>ev \<in> set (received (comm_map this) incoming).
               unat (delivery_time ev - current_sim_cycle w)
               = (if current_sim_cycle w \<le> delivery_time ev
                  then unat (delivery_time ev) - unat (current_sim_cycle w)
                  else 2 ^ 64 - (unat (current_sim_cycle w) - unat (delivery_time ev))))"
proof -
  have ab: "has_aborted (Sync_execute this incoming w)
            \<longleftrightarrow> \<not> list_all (known (link_map this)) (received (comm_map this) incoming)"
  proof (cases "list_all (known (link_map this)) (received (comm_map this) incoming)")
    case True
    from Sync_execute_returned [OF assms True, of w]
    obtain w' where "Sync_execute this incoming w = Returned w'" by auto
    with True show ?thesis by (simp add: has_aborted_def)
  next
    case False
    from Sync_execute_aborted [OF assms False, of w]
    obtain w' where "Sync_execute this incoming w = Aborted w'" by auto
    with False show ?thesis by (simp add: has_aborted_def)
  qed
  note sends = Sync_execute_sends [OF assms, of w incoming]
  have full: "list_all (known (link_map this)) (received (comm_map this) incoming) \<longrightarrow>
              sends_of (calls_since w (Sync_execute this incoming w))
              = map (\<lambda>ev. (link_of (link_map this) ev, delivery_time ev - current_sim_cycle w, ev))
                  (received (comm_map this) incoming)"
  proof
    assume "list_all (known (link_map this)) (received (comm_map this) incoming)"
    then have "takeWhile (known (link_map this)) (received (comm_map this) incoming)
                  = received (comm_map this) incoming"
      by (simp add: takeWhile_eq_all_conv list_all_iff)
    with sends show "sends_of (calls_since w (Sync_execute this incoming w))
              = map (\<lambda>ev. (link_of (link_map this) ev, delivery_time ev - current_sim_cycle w, ev))
                  (received (comm_map this) incoming)"
      by simp
  qed
  have un: "\<forall>ev \<in> set (received (comm_map this) incoming).
               unat (delivery_time ev - current_sim_cycle w)
               = (if current_sim_cycle w \<le> delivery_time ev
                  then unat (delivery_time ev) - unat (current_sim_cycle w)
                  else 2 ^ 64 - (unat (current_sim_cycle w) - unat (delivery_time ev)))"
    by (simp add: delay_unat)
  show ?thesis by (intro conjI) (rule ab, rule sends, rule full, rule un)
qed

text \<open>
  An Activity due at cycle 3 that arrives at the barrier of cycle 8 is not refused:
  \<open>execute\<close> returns, and the link gets it with the delay \<open>2 ^ 64 - 5\<close>.
\<close>

theorem Sync_execute_delay_wraps_counterexample:
  "delivery_time late < current_sim_cycle barrier_world
   \<and> \<not> has_aborted (Sync_execute barrier_sync (peer_sends [late] []) barrier_world)
   \<and> sends_of (calls_since barrier_world
        (Sync_execute barrier_sync (peer_sends [late] []) barrier_world))
     = [(90, 18446744073709551611, late)]"
  by (simp add: barrier_defs late_def has_aborted_def sends_of_def)

theorem Sync_execute_delay_wraps_witness:
  "separate (comm_map barrier_sync)
   \<and> list_all (known (link_map barrier_sync))
       (received (comm_map barrier_sync) (peer_sends [on_time] [late]))
   \<and> \<not> has_aborted (Sync_execute barrier_sync (peer_sends [on_time] [late]) barrier_world)
   \<and> sends_of (calls_since barrier_world
        (Sync_execute barrier_sync (peer_sends [on_time] [late]) barrier_world))
     = [(70, 1, on_time), (90, 18446744073709551611, late)]
   \<and> unat (delivery_time late - current_sim_cycle barrier_world) = 2 ^ 64 - (8 - 3)
   \<and> unat (delivery_time on_time - current_sim_cycle barrier_world) = 9 - 8
   \<and> has_aborted
       (Sync_execute barrier_sync (peer_sends [late, stray, on_time] []) barrier_world)
   \<and> sends_of (calls_since barrier_world
        (Sync_execute barrier_sync (peer_sends [late, stray, on_time] []) barrier_world))
     = [(90, 18446744073709551611, late)]"
proof -
  have k1: "list_all (known (link_map barrier_sync))
       (received (comm_map barrier_sync) (peer_sends [on_time] [late]))"
    by (simp add: known_def received_def barrier_sync_def peer_sends_def on_time_def late_def)
  have r: "received (comm_map barrier_sync) (peer_sends [on_time] [late]) = [on_time, late]"
    by (simp add: received_def barrier_sync_def peer_sends_def)
  have l: "link_of (link_map barrier_sync) on_time = 70" "link_of (link_map barrier_sync) late = 90"
    by (simp_all add: link_of_def barrier_sync_def on_time_def late_def)
  have d: "delivery_time on_time - current_sim_cycle barrier_world = 1"
    "delivery_time late - current_sim_cycle barrier_world = 18446744073709551611"
    by (simp_all add: barrier_world_def on_time_def late_def)
  have u: "current_sim_cycle barrier_world \<le> delivery_time on_time"
    "\<not> current_sim_cycle barrier_world \<le> delivery_time late"
    "unat (current_sim_cycle barrier_world) = 8" "unat (delivery_time on_time) = 9"
    "unat (delivery_time late) = 3"
    by (simp_all add: barrier_world_def on_time_def late_def)
  note th = Sync_execute_delay_wraps [OF barrier_sync_separate,
        of "peer_sends [on_time] [late]" barrier_world]
  from th k1 have p1: "\<not> has_aborted
      (Sync_execute barrier_sync (peer_sends [on_time] [late]) barrier_world)"
    by blast
  from th k1 have p2: "sends_of (calls_since barrier_world
        (Sync_execute barrier_sync (peer_sends [on_time] [late]) barrier_world))
     = [(70, 1, on_time), (90, 18446744073709551611, late)]"
    by (simp add: r l d)
  from th have p3: "\<forall>ev \<in> set [on_time, late].
               unat (delivery_time ev - current_sim_cycle barrier_world)
               = (if current_sim_cycle barrier_world \<le> delivery_time ev
                  then unat (delivery_time ev) - unat (current_sim_cycle barrier_world)
                  else 2 ^ 64 - (unat (current_sim_cycle barrier_world) - unat (delivery_time ev)))"
    unfolding r by blast
  from p3 have p4: "unat (delivery_time late - current_sim_cycle barrier_world) = 2 ^ 64 - (8 - 3)"
    "unat (delivery_time on_time - current_sim_cycle barrier_world) = 9 - 8"
    using u by simp_all
  have k3: "\<not> list_all (known (link_map barrier_sync))
         (received (comm_map barrier_sync) (peer_sends [late, stray, on_time] []))"
    "takeWhile (known (link_map barrier_sync))
         (received (comm_map barrier_sync) (peer_sends [late, stray, on_time] [])) = [late]"
    by (simp_all add: known_def received_def barrier_sync_def peer_sends_def stray_def
        late_def)
  note th3 = Sync_execute_delay_wraps [OF barrier_sync_separate,
        of "peer_sends [late, stray, on_time] []" barrier_world]
  from th3 k3(1) have p5: "has_aborted
       (Sync_execute barrier_sync (peer_sends [late, stray, on_time] []) barrier_world)"
    by blast
  from th3 have p6: "sends_of (calls_since barrier_world
        (Sync_execute barrier_sync (peer_sends [late, stray, on_time] []) barrier_world))
     = [(90, 18446744073709551611, late)]"
    by (simp add: k3(2) l d)
  from barrier_sync_separate k1 p1 p2 p4 p5 p6 show ?thesis by blast
qed

text \<open>
  C4. When \<open>execute\<close> comes to a received Activity whose link id is not in the link map,
  it prints "Link not found in map!" and aborts: these are its last two calls, the calls of
  \<open>Link::Send\<close> made are those for the Activities before that one, and so no link gets
  an Activity whose link id is unknown. When every link id is found, no abort happens and
  every received Activity is given to \<open>Send\<close> of the link that the map has for its id.
\<close>

theorem Sync_execute_link_lookup:
  assumes "separate (comm_map this)"
  shows "(list_all (known (link_map this)) (received (comm_map this) incoming) \<longrightarrow>
            \<not> has_aborted (Sync_execute this incoming w)
            \<and> map (\<lambda>(link, delay, ev). (link, ev))
                (sends_of (calls_since w (Sync_execute this incoming w)))
              = map (\<lambda>ev. (link_of (link_map this) ev, ev)) (received (comm_map this) incoming))
         \<and> (\<not> list_all (known (link_map this)) (received (comm_map this) incoming) \<longrightarrow>
              has_aborted (Sync_execute this incoming w)
              \<and> (\<exists>cs. calls_since w (Sync_execute this incoming w)
                     = cs @ [Printf (''Link not found in map!'' @ [CHR 0x0A]) [], Abort])
              \<and> map (\<lambda>(link, delay, ev). (link, ev))
                  (sends_of (calls_since w (Sync_execute this incoming w)))
                = map (\<lambda>ev. (link_of (link_map this) ev, ev))
                    (takeWhile (known (link_map this)) (received (comm_map this) incoming)))
         \<and> (\<forall>(link, delay, ev) \<in> set (sends_of (calls_since w (Sync_execute this incoming w))).
               map_of (link_map this) (link_id ev) = Some link)"
proof (cases "list_all (known (link_map this)) (received (comm_map this) incoming)")
  case True
  from Sync_execute_returned [OF assms True, of w]
  obtain w' where w': "Sync_execute this incoming w = Returned w'"
    "log w' = log w @ (concat (map (post_calls (heap w)) (comm_map this))
                 @ [Wait_all (2 * length (comm_map this))]
                 @ concat (map (dispatch_calls (link_map this) (current_sim_cycle w) incoming)
                     (comm_map this))
                 @ [InsertActivity (current_sim_cycle w + period this) (Activity.truncate this)])"
    by auto
  have s: "sends_of (calls_since w (Sync_execute this incoming w))
              = map (\<lambda>ev. (link_of (link_map this) ev, delivery_time ev - current_sim_cycle w, ev))
                  (received (comm_map this) incoming)"
    unfolding w'(1) calls_since_Returned [OF w'(2)] by (rule sends_of_execute_calls)
  have "\<forall>ev \<in> set (received (comm_map this) incoming).
          map_of (link_map this) (link_id ev) = Some (link_of (link_map this) ev)"
    using True by (auto simp: list_all_iff known_def link_of_def)
  with True w'(1) s show ?thesis by (auto simp: has_aborted_def comp_def)
next
  case False
  from Sync_execute_aborted [OF assms False, of w]
  obtain w' cs where w': "Sync_execute this incoming w = Aborted w'"
    "log w' = log w @ cs @ link_not_found"
    "sends_of cs = map (\<lambda>ev. (link_of (link_map this) ev,
                                       delivery_time ev - current_sim_cycle w, ev))
                              (takeWhile (known (link_map this))
                                 (received (comm_map this) incoming))"
    by auto
  have c: "calls_since w (Sync_execute this incoming w) = cs @ link_not_found"
    unfolding w'(1) by (rule calls_since_Aborted) (rule w'(2))
  then have c': "calls_since w (Sync_execute this incoming w)
      = cs @ [Printf (''Link not found in map!'' @ [CHR 0x0A]) [], Abort]"
    by (simp add: link_not_found_def)
  have "\<forall>ev \<in> set (takeWhile (known (link_map this)) (received (comm_map this) incoming)).
          map_of (link_map this) (link_id ev) = Some (link_of (link_map this) ev)"
    by (auto dest!: set_takeWhileD simp: known_def link_of_def)
  moreover from c' have "\<exists>cs. calls_since w (Sync_execute this incoming w)
      = cs @ [Printf (''Link not found in map!'' @ [CHR 0x0A]) [], Abort]"
    by blast
  moreover from c w'(3) have "sends_of (calls_since w (Sync_execute this incoming w))
      = map (\<lambda>ev. (link_of (link_map this) ev, delivery_time ev - current_sim_cycle w, ev))
          (takeWhile (known (link_map this)) (received (comm_map this) incoming))"
    by (simp add: sends_of_link_not_found)
  ultimately show ?thesis
    using False w'(1) by (auto simp: has_aborted_def comp_def)
qed

theorem Sync_execute_link_lookup_witness:
  "separate (comm_map barrier_sync)
   \<and> \<not> list_all (known (link_map barrier_sync))
         (received (comm_map barrier_sync) (peer_sends [on_time, stray, late] [on_time]))
   \<and> has_aborted
       (Sync_execute barrier_sync (peer_sends [on_time, stray, late] [on_time]) barrier_world)
   \<and> calls_since barrier_world
       (Sync_execute barrier_sync (peer_sends [on_time, stray, late] [on_time]) barrier_world)
     = [Isend 1 0 [outgoing], Irecv 1 0 1, Isend 2 0 [], Irecv 2 0 3, Wait_all 4,
        SyncQueue_clear 0, Link_Send 70 1 on_time,
        Printf (''Link not found in map!'' @ [CHR 0x0A]) [], Abort]
   \<and> map_of (link_map barrier_sync) (link_id on_time) = Some 70
   \<and> list_all (known (link_map barrier_sync))
       (received (comm_map barrier_sync) (peer_sends [on_time] [late]))
   \<and> map (\<lambda>(link, delay, ev). (link, ev))
       (sends_of (calls_since barrier_world
          (Sync_execute barrier_sync (peer_sends [on_time] [late]) barrier_world)))
     = [(70, on_time), (90, late)]"
proof -
  have k1: "list_all (known (link_map barrier_sync))
       (received (comm_map barrier_sync) (peer_sends [on_time] [late]))"
    by (simp add: known_def received_def barrier_sync_def peer_sends_def on_time_def late_def)
  have k2: "\<not> list_all (known (link_map barrier_sync))
         (received (comm_map barrier_sync) (peer_sends [on_time, stray, late] [on_time]))"
    by (simp add: known_def received_def barrier_sync_def peer_sends_def stray_def)
  have r: "received (comm_map barrier_sync) (peer_sends [on_time] [late]) = [on_time, late]"
    by (simp add: received_def barrier_sync_def peer_sends_def)
  have l: "link_of (link_map barrier_sync) on_time = 70" "link_of (link_map barrier_sync) late = 90"
    "map_of (link_map barrier_sync) (link_id on_time) = Some 70"
    by (simp_all add: link_of_def barrier_sync_def on_time_def late_def)
  have c: "calls_since barrier_world
       (Sync_execute barrier_sync (peer_sends [on_time, stray, late] [on_time]) barrier_world)
     = [Isend 1 0 [outgoing], Irecv 1 0 1, Isend 2 0 [], Irecv 2 0 3, Wait_all 4,
        SyncQueue_clear 0, Link_Send 70 1 on_time,
        Printf (''Link not found in map!'' @ [CHR 0x0A]) [], Abort]"
    by (simp add: barrier_defs on_time_def stray_def)
  note th1 = Sync_execute_link_lookup [OF barrier_sync_separate,
        of "peer_sends [on_time] [late]" barrier_world]
  note th2 = Sync_execute_link_lookup [OF barrier_sync_separate,
        of "peer_sends [on_time, stray, late] [on_time]" barrier_world]
  from th1 k1 have p1: "map (\<lambda>(link, delay, ev). (link, ev))
       (sends_of (calls_since barrier_world
          (Sync_execute barrier_sync (peer_sends [on_time] [late]) barrier_world)))
     = [(70, on_time), (90, late)]"
    by (simp add: r l)
  from th2 k2 have p2: "has_aborted
       (Sync_execute barrier_sync (peer_sends [on_time, stray, late] [on_time]) barrier_world)"
    by blast
  from barrier_sync_separate k2 p2 c l(3) k1 p1 show ?thesis by blast
qed

section \<open>Properties of Sync::exchangeLinkInitData\<close>

text \<open>
  C7. In \<open>exchangeLinkInitData\<close>, every received LinkInitData item whose link id is in the
  link map is given to \<open>sendInitData\<close> of the link that the map has for that id, with its
  link id reset to \<open>-1\<close> beforehand: every item in a call of \<open>sendInitData\<close> carries the
  link id \<open>-1\<close>. At the first item whose link id is not in the map, "Link not found in
  map!" is printed and the run aborts, after the items before it have been passed on.
\<close>

theorem Sync_exchangeLinkInitData_resets_link_id:
  assumes "separate (comm_map this)"
  shows "(list_all (known (link_map this)) (received (comm_map this) incoming) \<longrightarrow>
            \<not> has_aborted (Sync_exchangeLinkInitData move this incoming w)
            \<and> init_sends_of (calls_since w (Sync_exchangeLinkInitData move this incoming w))
              = map (\<lambda>lid. (link_of (link_map this) lid, lid\<lparr>link_id := - 1\<rparr>))
                  (received (comm_map this) incoming))
         \<and> (\<not> list_all (known (link_map this)) (received (comm_map this) incoming) \<longrightarrow>
              has_aborted (Sync_exchangeLinkInitData move this incoming w)
              \<and> (\<exists>cs. calls_since w (Sync_exchangeLinkInitData move this incoming w)
                     = cs @ [Printf (''Link not found in map!'' @ [CHR 0x0A]) [], Abort])
              \<and> init_sends_of (calls_since w (Sync_exchangeLinkInitData move this incoming w))
                = map (\<lambda>lid. (link_of (link_map this) lid, lid\<lparr>link_id := - 1\<rparr>))
                    (takeWhile (known (link_map this)) (received (comm_map this) incoming)))
         \<and> (\<forall>(link, lid) \<in> set (init_sends_of
                 (calls_since w (Sync_exchangeLinkInitData move this incoming w))).
               link_id lid = - 1)"
proof (cases "list_all (known (link_map this)) (received (comm_map this) incoming)")
  case True
  from Sync_exchangeLinkInitData_returned [OF assms True, of move w]
  obtain w' cs where w': "Sync_exchangeLinkInitData move this incoming w = Returned w'"
    "log w' = log w @ cs"
    "init_sends_of cs
       = map (\<lambda>lid. (link_of (link_map this) lid, lid\<lparr>link_id := - 1\<rparr>))
           (received (comm_map this) incoming)"
    by blast
  have c: "calls_since w (Returned w') = cs"
    by (rule calls_since_Returned) (rule w'(2))
  from True w'(1) w'(3) show ?thesis by (auto simp: c has_aborted_def)
next
  case False
  from Sync_exchangeLinkInitData_aborted [OF assms False, of move w]
  obtain w' cs where w': "Sync_exchangeLinkInitData move this incoming w = Aborted w'"
    "log w' = log w @ cs @ link_not_found"
    "init_sends_of cs
       = map (\<lambda>lid. (link_of (link_map this) lid, lid\<lparr>link_id := - 1\<rparr>))
           (takeWhile (known (link_map this)) (received (comm_map this) incoming))"
    by blast
  have c: "calls_since w (Aborted w') = cs @ link_not_found"
    by (rule calls_since_Aborted) (rule w'(2))
  then have "\<exists>cs. calls_since w (Aborted w')
      = cs @ [Printf (''Link not found in map!'' @ [CHR 0x0A]) [], Abort]"
    by (simp add: link_not_found_def)
  moreover from c w'(3) have "init_sends_of (calls_since w (Aborted w'))
       = map (\<lambda>lid. (link_of (link_map this) lid, lid\<lparr>link_id := - 1\<rparr>))
           (takeWhile (known (link_map this)) (received (comm_map this) incoming))"
    by (simp add: init_sends_of_link_not_found)
  ultimately show ?thesis
    using False w'(1) by (auto simp: has_aborted_def)
qed

theorem Sync_exchangeLinkInitData_resets_link_id_witness:
  "separate (comm_map barrier_sync)
   \<and> list_all (known (link_map barrier_sync))
       (received (comm_map barrier_sync) (peer_sends [hello_9] [hello_7]))
   \<and> calls_since barrier_world
       (Sync_exchangeLinkInitData init_move barrier_sync (peer_sends [hello_9] [hello_7])
          barrier_world)
     = [Link_moveInitDataToRecvQueue 40, Link_moveInitDataToRecvQueue 70,
        Link_moveInitDataToRecvQueue 90,
        Isend 1 0 [outgoing, greeting], Irecv 1 0 1, Isend 2 0 [], Irecv 2 0 3, Wait_all 4,
        SyncQueue_clear 0, Link_sendInitData 90 (hello_9\<lparr>link_id := - 1\<rparr>), Vector_clear 1,
        SyncQueue_clear 2, Link_sendInitData 70 (hello_7\<lparr>link_id := - 1\<rparr>), Vector_clear 3]
   \<and> init_sends_of (calls_since barrier_world
       (Sync_exchangeLinkInitData init_move barrier_sync (peer_sends [hello_9] [hello_7])
          barrier_world))
     = [(90, hello_9\<lparr>link_id := - 1\<rparr>), (70, hello_7\<lparr>link_id := - 1\<rparr>)]
   \<and> \<not> list_all (known (link_map barrier_sync))
         (received (comm_map barrier_sync) (peer_sends [hello_9, stray] [hello_7]))
   \<and> has_aborted
       (Sync_exchangeLinkInitData init_move barrier_sync (peer_sends [hello_9, stray] [hello_7])
          barrier_world)
   \<and> init_sends_of (calls_since barrier_world
       (Sync_exchangeLinkInitData init_move barrier_sync (peer_sends [hello_9, stray] [hello_7])
          barrier_world))
     = [(90, hello_9\<lparr>link_id := - 1\<rparr>)]"
proof -
  have k1: "list_all (known (link_map barrier_sync))
       (received (comm_map barrier_sync) (peer_sends [hello_9] [hello_7]))"
    by (simp add: known_def received_def barrier_sync_def peer_sends_def hello_9_def hello_7_def)
  have k2: "\<not> list_all (known (link_map barrier_sync))
         (received (comm_map barrier_sync) (peer_sends [hello_9, stray] [hello_7]))"
    by (simp add: known_def received_def barrier_sync_def peer_sends_def stray_def)
  have r: "received (comm_map barrier_sync) (peer_sends [hello_9] [hello_7]) = [hello_9, hello_7]"
    "takeWhile (known (link_map barrier_sync))
       (received (comm_map barrier_sync) (peer_sends [hello_9, stray] [hello_7])) = [hello_9]"
    by (simp_all add: received_def barrier_sync_def peer_sends_def known_def hello_9_def
        stray_def)
  have l: "link_of (link_map barrier_sync) hello_9 = 90"
    "link_of (link_map barrier_sync) hello_7 = 70"
    by (simp_all add: link_of_def barrier_sync_def hello_9_def hello_7_def)
  have c: "calls_since barrier_world
       (Sync_exchangeLinkInitData init_move barrier_sync (peer_sends [hello_9] [hello_7])
          barrier_world)
     = [Link_moveInitDataToRecvQueue 40, Link_moveInitDataToRecvQueue 70,
        Link_moveInitDataToRecvQueue 90,
        Isend 1 0 [outgoing, greeting], Irecv 1 0 1, Isend 2 0 [], Irecv 2 0 3, Wait_all 4,
        SyncQueue_clear 0, Link_sendInitData 90 (hello_9\<lparr>link_id := - 1\<rparr>), Vector_clear 1,
        SyncQueue_clear 2, Link_sendInitData 70 (hello_7\<lparr>link_id := - 1\<rparr>), Vector_clear 3]"
    by (simp add: Sync_exchangeLinkInitData_def barrier_defs init_move_def hello_9_def
        hello_7_def)
  note th1 = Sync_exchangeLinkInitData_resets_link_id [OF barrier_sync_separate,
      of "peer_sends [hello_9] [hello_7]" init_move barrier_world]
  note th2 = Sync_exchangeLinkInitData_resets_link_id [OF barrier_sync_separate,
      of "peer_sends [hello_9, stray] [hello_7]" init_move barrier_world]
  from th1 k1 have p1: "init_sends_of (calls_since barrier_world
       (Sync_exchangeLinkInitData init_move barrier_sync (peer_sends [hello_9] [hello_7])
          barrier_world))
     = [(90, hello_9\<lparr>link_id := - 1\<rparr>), (70, hello_7\<lparr>link_id := - 1\<rparr>)]"
    by (simp add: r l)
  from th2 k2 have p2: "has_aborted
       (Sync_exchangeLinkInitData init_move barrier_sync (peer_sends [hello_9, stray] [hello_7])
          barrier_world)"
    "init_sends_of (calls_since barrier_world
       (Sync_exchangeLinkInitData init_move barrier_sync (peer_sends [hello_9, stray] [hello_7])
          barrier_world))
     = [(90, hello_9\<lparr>link_id := - 1\<rparr>)]"
    by (simp_all add: r l)
  from barrier_sync_separate k1 c p1 k2 p2 show ?thesis by blast
qed

section \<open>Properties of the Sync object\<close>

text \<open>
  C9. \<open>registerLink\<close> allocates one SyncQueue for a peer rank. A call that names a rank
  for which \<open>comm_map\<close> has no entry makes a new SyncQueue and a new receive buffer, at
  addresses that no earlier object has, both empty, enters them under the rank and
  returns the SyncQueue; a call that names a rank with an entry returns the SyncQueue of
  that entry and allocates nothing. Every call records the link under its link id in
  \<open>link_map\<close>. Over a sequence of calls on a Sync with sound pointers, two calls return
  the same SyncQueue exactly when they name the same rank, two objects are allocated for
  each rank that had no entry, and the pointers stay sound.
\<close>

theorem Sync_registerLink_one_queue_per_rank:
  "(map_of (comm_map this) rank = None \<longrightarrow>
      (case Sync_registerLink rank lid link this w of (queue, this', w') \<Rightarrow>
         queue = allocated w
         \<and> allocated w' = allocated w + 2
         \<and> map_of (comm_map this') = (map_of (comm_map this))(rank \<mapsto> (queue, allocated w + 1))
         \<and> heap w' queue = [] \<and> heap w' (allocated w + 1) = []
         \<and> (\<forall>a. a < allocated w \<longrightarrow> heap w' a = heap w a)))
   \<and> (\<forall>q b. map_of (comm_map this) rank = Some (q, b) \<longrightarrow>
         (case Sync_registerLink rank lid link this w of (queue, this', w') \<Rightarrow>
            queue = q \<and> w' = w \<and> comm_map this' = comm_map this))
   \<and> (case Sync_registerLink rank lid link this w of (queue, this', w') \<Rightarrow>
         map_of (link_map this') = (map_of (link_map this))(lid \<mapsto> link)
         \<and> queue_for this' rank = Some queue)
   \<and> (pointers_sound this w \<longrightarrow>
        (case Sync_registerLinks calls this w of (queues, this', w') \<Rightarrow>
           pointers_sound this' w'
           \<and> length queues = length calls
           \<and> (\<forall>i<length calls. \<forall>j<length calls.
                 (queues ! i = queues ! j) = (fst (calls ! i) = fst (calls ! j)))
           \<and> allocated w' = allocated w + 2 * card (fst ` set calls - dom (queue_for this))))"
proof -
  have p1: "map_of (comm_map this) rank = None \<longrightarrow>
      (case Sync_registerLink rank lid link this w of (queue, this', w') \<Rightarrow>
         queue = allocated w
         \<and> allocated w' = allocated w + 2
         \<and> map_of (comm_map this') = (map_of (comm_map this))(rank \<mapsto> (queue, allocated w + 1))
         \<and> heap w' queue = [] \<and> heap w' (allocated w + 1) = []
         \<and> (\<forall>a. a < allocated w \<longrightarrow> heap w' a = heap w a))"
    by (simp add: Sync_registerLink_new map_of_map_assign)
  have p2: "\<forall>q b. map_of (comm_map this) rank = Some (q, b) \<longrightarrow>
         (case Sync_registerLink rank lid link this w of (queue, this', w') \<Rightarrow>
            queue = q \<and> w' = w \<and> comm_map this' = comm_map this)"
    by (simp add: Sync_registerLink_old)
  have p3: "case Sync_registerLink rank lid link this w of (queue, this', w') \<Rightarrow>
         map_of (link_map this') = (map_of (link_map this))(lid \<mapsto> link)
         \<and> queue_for this' rank = Some queue"
  proof (cases "map_of (comm_map this) rank")
    case None
    then show ?thesis
      by (simp add: Sync_registerLink_new map_of_map_assign queue_for_def)
  next
    case (Some e)
    obtain q b where "e = (q, b)" by (cases e)
    with Some show ?thesis
      by (simp add: Sync_registerLink_old map_of_map_assign queue_for_def)
  qed
  have p4: "pointers_sound this w \<longrightarrow>
        (case Sync_registerLinks calls this w of (queues, this', w') \<Rightarrow>
           pointers_sound this' w'
           \<and> length queues = length calls
           \<and> (\<forall>i<length calls. \<forall>j<length calls.
                 (queues ! i = queues ! j) = (fst (calls ! i) = fst (calls ! j)))
           \<and> allocated w' = allocated w + 2 * card (fst ` set calls - dom (queue_for this)))"
  proof
    assume ps: "pointers_sound this w"
    obtain qs this' w' where r: "Sync_registerLinks calls this w = (qs, this', w')"
      by (cases "Sync_registerLinks calls this w")
    note e = Sync_registerLinks_effect [OF ps r]
    have "(qs ! i = qs ! j) = (fst (calls ! i) = fst (calls ! j))"
      if "i < length calls" "j < length calls" for i j
    proof
      assume "qs ! i = qs ! j"
      with e that have "queue_for this' (fst (calls ! i)) = Some (qs ! i)"
        "queue_for this' (fst (calls ! j)) = Some (qs ! i)"
        by auto
      with e show "fst (calls ! i) = fst (calls ! j)" by (blast intro: queue_for_inj)
    next
      assume "fst (calls ! i) = fst (calls ! j)"
      with e that have "Some (qs ! i) = Some (qs ! j)" by metis
      then show "qs ! i = qs ! j" by simp
    qed
    with e show "case Sync_registerLinks calls this w of (queues, this', w') \<Rightarrow>
           pointers_sound this' w'
           \<and> length queues = length calls
           \<and> (\<forall>i<length calls. \<forall>j<length calls.
                 (queues ! i = queues ! j) = (fst (calls ! i) = fst (calls ! j)))
           \<and> allocated w' = allocated w + 2 * card (fst ` set calls - dom (queue_for this))"
      by (simp add: r)
  qed
  show ?thesis by (intro conjI) (rule p1, rule p2, rule p3, rule p4)
qed

theorem Sync_registerLink_one_queue_per_rank_witness:
  "pointers_sound (fst (Sync_Sync start_action 4 0 start_world))
     (snd (Sync_Sync start_action 4 0 start_world))
   \<and> Sync_registerLinks three_links (fst (Sync_Sync start_action 4 0 start_world))
        (snd (Sync_Sync start_action 4 0 start_world))
      = ([0, 2, 0], barrier_sync,
         \<lparr>heap = (\<lambda>a. []), allocated = 4, current_sim_cycle = 8,
          log = [InsertActivity 12 \<lparr>delivery_time = 0, priority = 25, sequence = 0\<rparr>]\<rparr>)
   \<and> pointers_sound barrier_sync
        \<lparr>heap = (\<lambda>a. []), allocated = 4, current_sim_cycle = 8,
         log = [InsertActivity 12 \<lparr>delivery_time = 0, priority = 25, sequence = 0\<rparr>]\<rparr>
   \<and> map_of (comm_map barrier_sync) 1 = Some (0, 1)
   \<and> fst (Sync_registerLink 1 5 50 barrier_sync barrier_world) = 0
   \<and> snd (snd (Sync_registerLink 1 5 50 barrier_sync barrier_world)) = barrier_world
   \<and> map_of (comm_map barrier_sync) 3 = None
   \<and> fst (Sync_registerLink 3 5 50 barrier_sync barrier_world) = 4
   \<and> allocated (snd (snd (Sync_registerLink 3 5 50 barrier_sync barrier_world))) = 6
   \<and> map_of (link_map (fst (snd (Sync_registerLink 3 5 50 barrier_sync barrier_world)))) 5
      = Some 50"
proof -
  have ps: "pointers_sound (fst (Sync_Sync start_action 4 0 start_world))
     (snd (Sync_Sync start_action 4 0 start_world))"
    by (simp add: pointers_sound_def separate_def queues_of_def buffers_of_def Sync_Sync_def
        Let_def)
  have m: "map_of (comm_map barrier_sync) 1 = Some (0, 1)"
    "map_of (comm_map barrier_sync) 3 = None"
    "allocated barrier_world = 4"
    by (simp_all add: barrier_sync_def barrier_world_def)
  note th1 = Sync_registerLink_one_queue_per_rank
      [where this = "fst (Sync_Sync start_action 4 0 start_world)" and rank = 1 and lid = 5
         and link = 50 and w = "snd (Sync_Sync start_action 4 0 start_world)"
         and calls = three_links]
  note th2 = Sync_registerLink_one_queue_per_rank
      [where this = barrier_sync and rank = 1 and lid = 5 and link = 50 and w = barrier_world
         and calls = "[]"]
  note th3 = Sync_registerLink_one_queue_per_rank
      [where this = barrier_sync and rank = 3 and lid = 5 and link = 50 and w = barrier_world
         and calls = "[]"]
  from th1 ps have p1: "pointers_sound barrier_sync
        \<lparr>heap = (\<lambda>a. []), allocated = 4, current_sim_cycle = 8,
         log = [InsertActivity 12 \<lparr>delivery_time = 0, priority = 25, sequence = 0\<rparr>]\<rparr>"
    by (simp add: registered)
  from th2 m(1) have p2: "fst (Sync_registerLink 1 5 50 barrier_sync barrier_world) = 0"
    "snd (snd (Sync_registerLink 1 5 50 barrier_sync barrier_world)) = barrier_world"
    by (auto split: prod.splits)
  from th3 m(2,3) have p3: "fst (Sync_registerLink 3 5 50 barrier_sync barrier_world) = 4"
    "allocated (snd (snd (Sync_registerLink 3 5 50 barrier_sync barrier_world))) = 6"
    "map_of (link_map (fst (snd (Sync_registerLink 3 5 50 barrier_sync barrier_world)))) 5
      = Some 50"
    by (auto split: prod.splits)
  from ps registered p1 m(1,2) p2 p3 show ?thesis by blast
qed

text \<open>
  C8. \<open>serialize\<close> writes the Action base object, the period, \<open>comm_map\<close> and
  \<open>link_map\<close>, and nothing of \<open>comm\<close>: two Syncs that differ in \<open>comm\<close> only write the
  same archive and print the same lines.
\<close>

theorem Sync_serialize_omits_comm:
  "Sync_serialize (this\<lparr>comm := c\<rparr>) ar w = Sync_serialize this ar w
   \<and> fst (Sync_serialize this ar w)
     = ar @ [Base_Action (Activity.truncate this), NVP_period (period this),
             NVP_comm_map (map (\<lambda>(rank, queue, buffer). (rank, heap w queue, heap w buffer))
                             (comm_map this)),
             NVP_link_map (link_map this)]"
  by (simp add: Sync_serialize_def Activity.truncate_def Let_def)

theorem Sync_serialize_omits_comm_witness:
  "Sync_serialize (barrier_sync\<lparr>comm := 5\<rparr>) [] barrier_world
     = Sync_serialize barrier_sync [] barrier_world
   \<and> fst (Sync_serialize barrier_sync [] barrier_world)
     = [Base_Action \<lparr>delivery_time = 0, priority = 25, sequence = 0\<rparr>, NVP_period 4,
        NVP_comm_map [(1, [outgoing], []), (2, [], [])],
        NVP_link_map [(4, 40), (7, 70), (9, 90)]]"
  using Sync_serialize_omits_comm
      [where this = barrier_sync and c = 5 and ar = "[]" and w = barrier_world]
  by (simp add: barrier_sync_def barrier_world_def Activity.truncate_def)

text \<open>
  C10. The constructor sets the priority of the new Sync to 25, leaves both maps empty
  and makes one call, \<open>insertActivity\<close> of the Sync, by then of priority 25, at the
  current cycle plus the period in the arithmetic of \<open>SimTime_t\<close>. When that sum does
  not pass \<open>2 ^ 64\<close> it is the exact sum, and for a period above 0 the first barrier is
  later than the construction.
\<close>

theorem Sync_Sync_first_barrier:
  "priority (fst (Sync_Sync action p c w)) = 25
   \<and> period (fst (Sync_Sync action p c w)) = p
   \<and> comm_map (fst (Sync_Sync action p c w)) = []
   \<and> link_map (fst (Sync_Sync action p c w)) = []
   \<and> log (snd (Sync_Sync action p c w))
     = log w @ [InsertActivity (current_sim_cycle w + p)
          \<lparr>delivery_time = delivery_time action, priority = 25, sequence = sequence action\<rparr>]
   \<and> (unat (current_sim_cycle w) + unat p < 2 ^ 64 \<longrightarrow>
        unat (current_sim_cycle w + p) = unat (current_sim_cycle w) + unat p)
   \<and> (unat (current_sim_cycle w) + unat p < 2 ^ 64 \<and> 0 < p \<longrightarrow>
        current_sim_cycle w < current_sim_cycle w + p)"
proof -
  have a: "unat (current_sim_cycle w + p) = unat (current_sim_cycle w) + unat p"
    if "unat (current_sim_cycle w) + unat p < 2 ^ 64"
    using that by (simp add: unat_add_lem [THEN iffD1])
  have b: "current_sim_cycle w < current_sim_cycle w + p"
    if "unat (current_sim_cycle w) + unat p < 2 ^ 64" "0 < p"
  proof -
    from that(2) have "0 < unat p" by (simp add: word_less_nat_alt)
    with a [OF that(1)] show ?thesis by (simp add: word_less_nat_alt)
  qed
  show ?thesis
    using a b
    by (simp add: Sync_Sync_def Let_def Activity.truncate_def)
qed

theorem Sync_Sync_first_barrier_witness:
  "unat (current_sim_cycle start_world) + unat (4 :: SimTime_t) < 2 ^ 64
   \<and> priority (fst (Sync_Sync start_action 4 0 start_world)) = 25
   \<and> log (snd (Sync_Sync start_action 4 0 start_world))
     = [InsertActivity 12 \<lparr>delivery_time = 0, priority = 25, sequence = 0\<rparr>]
   \<and> unat (current_sim_cycle start_world + 4) = 12
   \<and> current_sim_cycle start_world < current_sim_cycle start_world + 4"
proof -
  have h: "unat (current_sim_cycle start_world) + unat (4 :: SimTime_t) < 2 ^ 64"
    "(0 :: SimTime_t) < 4" "unat (current_sim_cycle start_world) = 8"
    by (simp_all add: start_world_def)
  note th = Sync_Sync_first_barrier
      [where action = start_action and p = 4 and c = 0 and w = start_world]
  from th have p1: "priority (fst (Sync_Sync start_action 4 0 start_world)) = 25" by blast
  from th h have p2: "unat (current_sim_cycle start_world + 4) = 12"
    "current_sim_cycle start_world < current_sim_cycle start_world + 4"
    by simp_all
  from th have "log (snd (Sync_Sync start_action 4 0 start_world))
     = log start_world @ [InsertActivity (current_sim_cycle start_world + 4)
          \<lparr>delivery_time = delivery_time start_action, priority = 25,
            sequence = sequence start_action\<rparr>]"
    by blast
  then have p3: "log (snd (Sync_Sync start_action 4 0 start_world))
     = [InsertActivity 12 \<lparr>delivery_time = 0, priority = 25, sequence = 0\<rparr>]"
    by (simp add: start_world_def start_action_def)
  from h(1) p1 p2 p3 show ?thesis by blast
qed

end
